theory Spec2Isabelle
  imports Main "HOL-Library.Word"
begin

unbundle bit_operations_syntax

section \<open>HAMMER transactions, transaction ids and the object id cache\<close>

text \<open>
  A shallow embedding of \<^verbatim>\<open>hammer_transaction.c\<close>.  A transaction id
  (\<^verbatim>\<open>hammer_tid_t\<close>) is an unsigned 64-bit integer and is modelled as a 64-bit word,
  so every addition wraps as in C.  Values of C type \<^verbatim>\<open>int\<close> (the count argument, the
  master id, the cache counters, the flags) are modelled as integers; where the C code
  converts such a value to \<^verbatim>\<open>hammer_tid_t\<close> the model applies \<open>word_of_int\<close>, which is
  the conversion modulo \<open>2 ^ 64\<close>.  The one product of two \<^verbatim>\<open>int\<close>s in the file,
  \<^verbatim>\<open>count * HAMMER_MAX_MASTERS\<close>, is computed in 32 bits before it is converted: the
  model reduces it with \<open>int32\<close>, the signed value of the low 32 bits.

  The header \<^verbatim>\<open>hammer.h\<close> is not part of the sources at hand.  The constants it
  defines are therefore parameters of the model, collected in one record.  The kernel
  functions the file calls are those of \<^verbatim>\<open>dfly_wrap.c\<close>: \<^verbatim>\<open>kmalloc\<close> is
  \<^verbatim>\<open>dfly_kmalloc\<close>, which allocates, and \<^verbatim>\<open>kfree\<close> is \<^verbatim>\<open>dfly_kfree\<close>, whose body is
  \<^verbatim>\<open>panic("dfly_kfree")\<close>.
\<close>

type_synonym hammer_tid_t = "64 word"

record hammer_consts =
  HAMMER_MAX_MASTERS :: int
  OBJID_CACHE_SIZE :: int
  OBJID_CACHE_BULK :: int
  HAMMER_TRANSF_NEWINODE :: int
  HAMMER_TRANSF_DIDIO :: int

text \<open>Inodes are identified by a number; a cache entry by its address.\<close>

type_synonym hammer_inode_t = nat
type_synonym hammer_objid_cache_t = nat

text \<open>
  \<^verbatim>\<open>struct hammer_objid_cache\<close>: the back pointer to the directory (\<open>None\<close> is
  \<^verbatim>\<open>NULL\<close>), the next id to hand out and the number of ids left.  The list linkage
  \<^verbatim>\<open>entry\<close> is represented by the position in \<open>objid_cache_list\<close> of the mount.
\<close>

record hammer_objid_cache =
  oc_dip :: "hammer_inode_t option"
  oc_next_tid :: hammer_tid_t
  oc_count :: int

text \<open>
  The part of \<^verbatim>\<open>struct hammer_mount\<close> the file works on, together with the memory it
  reaches through pointers: \<open>ocp_heap\<close> holds the cache entries that are allocated
  (\<open>None\<close> at an address that is not), \<open>ocp_brk\<close> is the address the next
  \<^verbatim>\<open>kmalloc\<close> returns, and \<open>inode_objid_cache\<close> is the field
  \<^verbatim>\<open>dip->objid_cache\<close> of every inode of the mount.
\<close>

record hammer_mount =
  master_id :: int
  next_tid :: hammer_tid_t
  objid_cache_list :: "hammer_objid_cache_t list"
  objid_cache_count :: int
  ocp_heap :: "hammer_objid_cache_t \<Rightarrow> hammer_objid_cache option"
  ocp_brk :: nat
  inode_objid_cache :: "hammer_inode_t \<Rightarrow> hammer_objid_cache_t option"

text \<open>
  The ways in which a call does not return: the \<^verbatim>\<open>panic\<close> of the TID allocator, the
  \<^verbatim>\<open>panic\<close> of \<^verbatim>\<open>dfly_kfree\<close>, a failed \<^verbatim>\<open>KKASSERT\<close>, and the use of a pointer that
  is \<^verbatim>\<open>NULL\<close> or names no allocated cache entry or no member of the list.
\<close>

datatype hammer_fault = Panic_out_of_TIDs | Panic_dfly_kfree | KKASSERT_failed | Bad_pointer

text \<open>The value of a C expression of type \<^verbatim>\<open>int\<close>: 32 bits, two's complement.\<close>

definition int32 :: "int \<Rightarrow> int" where
  "int32 x = signed_take_bit 31 x"

subsection \<open>The TID allocator\<close>

definition TID_LIMIT :: hammer_tid_t where
  "TID_LIMIT = 0xFFFFFFFFFF000000"

definition hammer_alloc_tid ::
  "hammer_consts \<Rightarrow> hammer_mount \<Rightarrow> int \<Rightarrow> hammer_fault + (hammer_tid_t \<times> hammer_mount)"
where
  "hammer_alloc_tid c hmp count =
     (let (tid, hmp') =
        (if master_id hmp < 0 then
           (let tid = next_tid hmp + 1
            in (tid, hmp\<lparr>next_tid := tid + word_of_int count\<rparr>))
         else
           (let tid = (next_tid hmp + word_of_int (HAMMER_MAX_MASTERS c)) AND
                      NOT (word_of_int (HAMMER_MAX_MASTERS c - 1));
                hmp1 = hmp\<lparr>next_tid :=
                         tid + word_of_int (int32 (count * HAMMER_MAX_MASTERS c))\<rparr>
            in (tid OR word_of_int (master_id hmp), hmp1)))
      in if TID_LIMIT \<le> tid then Inl Panic_out_of_TIDs else Inr (tid, hmp'))"

text \<open>A series of allocations on one mount, in order; it ends at the first panic.\<close>

fun alloc_tid_seq ::
  "hammer_consts \<Rightarrow> hammer_mount \<Rightarrow> int list \<Rightarrow> hammer_fault + (hammer_tid_t list \<times> hammer_mount)"
where
  "alloc_tid_seq c hmp [] = Inr ([], hmp)"
| "alloc_tid_seq c hmp (n # ns) =
     (case hammer_alloc_tid c hmp n of
        Inl e \<Rightarrow> Inl e
      | Inr (tid, hmp1) \<Rightarrow>
          (case alloc_tid_seq c hmp1 ns of
             Inl e \<Rightarrow> Inl e
           | Inr (tids, hmp2) \<Rightarrow> Inr (tid # tids, hmp2)))"

subsection \<open>Transactions\<close>

datatype hammer_transaction_type = HAMMER_TRANS_RO | HAMMER_TRANS_STD | HAMMER_TRANS_FLS

type_synonym hammer_volume_t = nat

text \<open>
  \<^verbatim>\<open>struct hammer_transaction\<close>.  The pointer \<^verbatim>\<open>hmp\<close> to the mount is left out: the
  mount is passed to the functions that need it.
\<close>

record hammer_transaction =
  tr_type :: hammer_transaction_type
  tr_rootvol :: "hammer_volume_t option"
  tr_tid :: hammer_tid_t
  tr_sync_lock_refs :: int
  tr_flags :: int
  tr_time :: "64 word"
  tr_time32 :: "32 word"

text \<open>
  The functions of other files that \<^verbatim>\<open>hammer_done_transaction\<close> calls are recorded, in
  the order of the calls.
\<close>

datatype hammer_call =
    Rel_volume "hammer_volume_t option"
  | Inode_waitreclaims
  | Inode_waithard

text \<open>
  \<^verbatim>\<open>hammer_done_transaction\<close> returns the calls it has made and either the fault that
  ended it or the transaction as it leaves it.
\<close>

definition hammer_done_transaction ::
  "hammer_consts \<Rightarrow> hammer_transaction \<Rightarrow>
     hammer_call list \<times> (hammer_fault + hammer_transaction)"
where
  "hammer_done_transaction c tr =
     (let calls = [Rel_volume (tr_rootvol tr)];
          tr1 = tr\<lparr>tr_rootvol := None\<rparr>;
          expected_lock_refs = (if tr_type tr1 = HAMMER_TRANS_FLS then 1 else 0)
      in if tr_sync_lock_refs tr1 \<noteq> expected_lock_refs then (calls, Inl KKASSERT_failed)
         else
           (let tr2 = tr1\<lparr>tr_sync_lock_refs := 0\<rparr>
            in if tr_type tr2 \<noteq> HAMMER_TRANS_FLS then
                 (if tr_flags tr2 AND HAMMER_TRANSF_NEWINODE c \<noteq> 0
                    then (calls @ [Inode_waitreclaims], Inr tr2)
                  else if tr_flags tr2 AND HAMMER_TRANSF_DIDIO c \<noteq> 0
                    then (calls @ [Inode_waithard], Inr tr2)
                  else (calls, Inr tr2))
               else (calls, Inr tr2)))"

subsection \<open>The object id cache\<close>

text \<open>
  The tail queue \<^verbatim>\<open>objid_cache_list\<close> is a list whose first element is the head of
  the queue.
\<close>

definition TAILQ_FIRST :: "'a list \<Rightarrow> 'a option" where
  "TAILQ_FIRST q = (case q of [] \<Rightarrow> None | x # _ \<Rightarrow> Some x)"

definition TAILQ_INSERT_HEAD :: "'a list \<Rightarrow> 'a \<Rightarrow> 'a list" where
  "TAILQ_INSERT_HEAD q x = x # q"

definition TAILQ_INSERT_TAIL :: "'a list \<Rightarrow> 'a \<Rightarrow> 'a list" where
  "TAILQ_INSERT_TAIL q x = q @ [x]"

definition TAILQ_REMOVE :: "'a list \<Rightarrow> 'a \<Rightarrow> 'a list" where
  "TAILQ_REMOVE q x = remove1 x q"

text \<open>
  One pass through the body of the \<^verbatim>\<open>while\<close> loop of \<^verbatim>\<open>hammer_alloc_objid\<close>, entered
  when the directory has no cache entry.  With room in the pool a new entry is
  allocated, filled from the TID allocator and put at the head of the queue; the
  directory is bound to it if its pointer is still \<^verbatim>\<open>NULL\<close>, which it is whenever the
  loop is entered by one caller at a time.  Otherwise the first entry of the queue is
  taken away from its directory, if it has one, and bound to this directory.
\<close>

definition objid_cache_obtain ::
  "hammer_consts \<Rightarrow> hammer_mount \<Rightarrow> hammer_inode_t \<Rightarrow> hammer_fault + hammer_mount"
where
  "objid_cache_obtain c hmp dip =
     (if objid_cache_count hmp < OBJID_CACHE_SIZE c then
        (let ocp = ocp_brk hmp;
             hmp1 = hmp\<lparr>ocp_brk := Suc ocp,
                        ocp_heap := (ocp_heap hmp)
                          (ocp \<mapsto> \<lparr>oc_dip = None, oc_next_tid = 0, oc_count = 0\<rparr>)\<rparr>
         in case hammer_alloc_tid c hmp1 (OBJID_CACHE_BULK c) of
              Inl e \<Rightarrow> Inl e
            | Inr (tid, hmp2) \<Rightarrow>
                (let ent = \<lparr>oc_dip = None, oc_next_tid = tid,
                            oc_count = OBJID_CACHE_BULK c\<rparr>;
                     hmp3 = hmp2\<lparr>ocp_heap := (ocp_heap hmp2)(ocp \<mapsto> ent),
                       objid_cache_list := TAILQ_INSERT_HEAD (objid_cache_list hmp2) ocp,
                       objid_cache_count := objid_cache_count hmp2 + 1\<rparr>
                 in if inode_objid_cache hmp3 dip = None then
                      Inr (hmp3\<lparr>inode_objid_cache := (inode_objid_cache hmp3)(dip \<mapsto> ocp),
                                ocp_heap := (ocp_heap hmp3)(ocp \<mapsto> ent\<lparr>oc_dip := Some dip\<rparr>)\<rparr>)
                    else Inr hmp3))
      else
        (case TAILQ_FIRST (objid_cache_list hmp) of
           None \<Rightarrow> Inl Bad_pointer
         | Some ocp \<Rightarrow>
             (case ocp_heap hmp ocp of
                None \<Rightarrow> Inl Bad_pointer
              | Some ent \<Rightarrow>
                  (let hmp1 = (case oc_dip ent of
                                 None \<Rightarrow> hmp
                               | Some d \<Rightarrow>
                                   hmp\<lparr>inode_objid_cache := (inode_objid_cache hmp)(d := None)\<rparr>)
                   in Inr (hmp1\<lparr>inode_objid_cache := (inode_objid_cache hmp1)(dip \<mapsto> ocp),
                                ocp_heap := (ocp_heap hmp1)(ocp \<mapsto> ent\<lparr>oc_dip := Some dip\<rparr>)\<rparr>)))))"

text \<open>
  The loop \<^verbatim>\<open>while ((ocp = dip->objid_cache) == NULL)\<close>.  Every pass leaves a cache
  entry bound to the directory, so the loop ends after at most one pass.
\<close>

function objid_cache_lookup ::
  "hammer_consts \<Rightarrow> hammer_mount \<Rightarrow> hammer_inode_t \<Rightarrow>
     hammer_fault + (hammer_objid_cache_t \<times> hammer_mount)"
where
  "objid_cache_lookup c hmp dip =
     (case inode_objid_cache hmp dip of
        Some ocp \<Rightarrow> Inr (ocp, hmp)
      | None \<Rightarrow>
          (case objid_cache_obtain c hmp dip of
             Inl e \<Rightarrow> Inl e
           | Inr hmp1 \<Rightarrow> objid_cache_lookup c hmp1 dip))"
  by pat_completeness auto
termination
proof (relation "measure (\<lambda>(c, hmp, dip). if inode_objid_cache hmp dip = None then 1 else 0)")
  show "wf (measure (\<lambda>(c, hmp, dip). if inode_objid_cache hmp dip = None then 1 else 0))"
    by simp
next
  fix c hmp dip hmp1
  assume "inode_objid_cache hmp dip = None" and "objid_cache_obtain c hmp dip = Inr hmp1"
  then have "inode_objid_cache hmp1 dip \<noteq> None"
    by (auto simp: objid_cache_obtain_def Let_def
             split: if_splits sum.splits prod.splits option.splits)
  then show "((c, hmp1, dip), (c, hmp, dip)) \<in>
      measure (\<lambda>(c, hmp, dip). if inode_objid_cache hmp dip = None then 1 else 0)"
    using \<open>inode_objid_cache hmp dip = None\<close> by simp
qed

declare objid_cache_lookup.simps [simp del]

text \<open>
  \<^verbatim>\<open>kfree(ocp, hmp->m_misc)\<close>, which is \<^verbatim>\<open>dfly_kfree\<close> of \<^verbatim>\<open>dfly_wrap.c\<close>: it panics,
  whatever it is given.
\<close>

definition dfly_kfree ::
  "hammer_mount \<Rightarrow> hammer_objid_cache_t \<Rightarrow> hammer_fault + hammer_mount"
where
  "dfly_kfree hmp ptr = Inl Panic_dfly_kfree"

text \<open>
  The rest of \<^verbatim>\<open>hammer_alloc_objid\<close>, after the loop has found the entry \<open>ocp\<close>: the
  entry is taken out of the queue and its next id is to be the result.  When its count
  reaches zero the directory and the entry are unbound, the counter of the pool is
  decremented and the entry is handed to \<^verbatim>\<open>kfree\<close>; otherwise the entry is put at the
  tail of the queue.
\<close>

definition objid_cache_take ::
  "hammer_consts \<Rightarrow> hammer_mount \<Rightarrow> hammer_inode_t \<Rightarrow> hammer_objid_cache_t \<Rightarrow>
     hammer_fault + (hammer_tid_t \<times> hammer_mount)"
where
  "objid_cache_take c hmp dip ocp =
     (case ocp_heap hmp ocp of
        None \<Rightarrow> Inl Bad_pointer
      | Some ent \<Rightarrow>
          if ocp \<notin> set (objid_cache_list hmp) then Inl Bad_pointer
          else
            (let hmp1 = hmp\<lparr>objid_cache_list := TAILQ_REMOVE (objid_cache_list hmp) ocp\<rparr>;
                 tid = oc_next_tid ent;
                 ent1 = ent\<lparr>oc_next_tid := oc_next_tid ent +
                          (if master_id hmp1 < 0 then 1
                           else word_of_int (HAMMER_MAX_MASTERS c))\<rparr>;
                 ent2 = ent1\<lparr>oc_count := oc_count ent1 - 1\<rparr>
             in if oc_count ent2 = 0 then
                  (case dfly_kfree
                          (hmp1\<lparr>inode_objid_cache := (inode_objid_cache hmp1)(dip := None),
                                objid_cache_count := objid_cache_count hmp1 - 1,
                                ocp_heap := (ocp_heap hmp1)(ocp \<mapsto> ent2\<lparr>oc_dip := None\<rparr>)\<rparr>)
                          ocp of
                     Inl e \<Rightarrow> Inl e
                   | Inr hmp2 \<Rightarrow> Inr (tid, hmp2))
                else
                  Inr (tid, hmp1\<lparr>ocp_heap := (ocp_heap hmp1)(ocp \<mapsto> ent2),
                                 objid_cache_list :=
                                   TAILQ_INSERT_TAIL (objid_cache_list hmp1) ocp\<rparr>)))"

definition hammer_alloc_objid ::
  "hammer_consts \<Rightarrow> hammer_mount \<Rightarrow> hammer_inode_t \<Rightarrow>
     hammer_fault + (hammer_tid_t \<times> hammer_mount)"
where
  "hammer_alloc_objid c hmp dip =
     (case objid_cache_lookup c hmp dip of
        Inl e \<Rightarrow> Inl e
      | Inr (ocp, hmp1) \<Rightarrow> objid_cache_take c hmp1 dip ocp)"

definition hammer_clear_objid ::
  "hammer_mount \<Rightarrow> hammer_inode_t \<Rightarrow> hammer_fault + hammer_mount"
where
  "hammer_clear_objid hmp dip =
     (case inode_objid_cache hmp dip of
        None \<Rightarrow> Inr hmp
      | Some ocp \<Rightarrow>
          (case ocp_heap hmp ocp of
             None \<Rightarrow> Inl Bad_pointer
           | Some ent \<Rightarrow>
               if ocp \<notin> set (objid_cache_list hmp) then Inl Bad_pointer
               else Inr (hmp\<lparr>inode_objid_cache := (inode_objid_cache hmp)(dip := None),
                             ocp_heap := (ocp_heap hmp)(ocp \<mapsto> ent\<lparr>oc_dip := None\<rparr>),
                             objid_cache_list :=
                               TAILQ_INSERT_HEAD (TAILQ_REMOVE (objid_cache_list hmp) ocp) ocp\<rparr>)))"

text \<open>
  \<^verbatim>\<open>hammer_destroy_objid_cache\<close>: as long as the queue has a first entry, the entry is
  taken out of the queue, its directory, if it has one, is unbound, and the entry is
  handed to \<^verbatim>\<open>kfree\<close>.
\<close>

function hammer_destroy_objid_cache :: "hammer_mount \<Rightarrow> hammer_fault + hammer_mount" where
  "hammer_destroy_objid_cache hmp =
     (case TAILQ_FIRST (objid_cache_list hmp) of
        None \<Rightarrow> Inr hmp
      | Some ocp \<Rightarrow>
          (case ocp_heap hmp ocp of
             None \<Rightarrow> Inl Bad_pointer
           | Some ent \<Rightarrow>
               (let hmp1 = hmp\<lparr>objid_cache_list := TAILQ_REMOVE (objid_cache_list hmp) ocp\<rparr>;
                    hmp2 = (case oc_dip ent of
                              None \<Rightarrow> hmp1
                            | Some d \<Rightarrow>
                                hmp1\<lparr>inode_objid_cache := (inode_objid_cache hmp1)(d := None)\<rparr>)
                in case dfly_kfree hmp2 ocp of
                     Inl e \<Rightarrow> Inl e
                   | Inr hmp3 \<Rightarrow> hammer_destroy_objid_cache hmp3)))"
  by pat_completeness auto
termination
  by (relation "measure (\<lambda>hmp. length (objid_cache_list hmp))")
     (auto simp: dfly_kfree_def)

declare hammer_destroy_objid_cache.simps [simp del]

text \<open>
  A series of calls on one mount: \<open>Alloc dip\<close> is \<^verbatim>\<open>hammer_alloc_objid(hmp, dip)\<close> and
  \<open>Clear dip\<close> is \<^verbatim>\<open>hammer_clear_objid(dip)\<close>.  The run returns the ids handed out, in
  order, and ends at the first fault.
\<close>

datatype objid_op = Alloc hammer_inode_t | Clear hammer_inode_t

fun objid_run ::
  "hammer_consts \<Rightarrow> hammer_mount \<Rightarrow> objid_op list \<Rightarrow>
     hammer_fault + (hammer_tid_t list \<times> hammer_mount)"
where
  "objid_run c hmp [] = Inr ([], hmp)"
| "objid_run c hmp (Alloc dip # ops) =
     (case hammer_alloc_objid c hmp dip of
        Inl e \<Rightarrow> Inl e
      | Inr (tid, hmp1) \<Rightarrow>
          (case objid_run c hmp1 ops of
             Inl e \<Rightarrow> Inl e
           | Inr (tids, hmp2) \<Rightarrow> Inr (tid # tids, hmp2)))"
| "objid_run c hmp (Clear dip # ops) =
     (case hammer_clear_objid hmp dip of
        Inl e \<Rightarrow> Inl e
      | Inr hmp1 \<Rightarrow> objid_run c hmp1 ops)"

text \<open>
  The ids that the calls of such a series have returned, in order, whether the series
  comes to its end or stops at a fault.
\<close>

fun objid_returned :: "hammer_consts \<Rightarrow> hammer_mount \<Rightarrow> objid_op list \<Rightarrow> hammer_tid_t list"
where
  "objid_returned c hmp [] = []"
| "objid_returned c hmp (Alloc dip # ops) =
     (case hammer_alloc_objid c hmp dip of
        Inl e \<Rightarrow> []
      | Inr (tid, hmp1) \<Rightarrow> tid # objid_returned c hmp1 ops)"
| "objid_returned c hmp (Clear dip # ops) =
     (case hammer_clear_objid hmp dip of
        Inl e \<Rightarrow> []
      | Inr hmp1 \<Rightarrow> objid_returned c hmp1 ops)"

subsection \<open>Auxiliary definitions\<close>

text \<open>
  Rounding up to a multiple, in the usual sense of the words: the least multiple of \<open>m\<close>
  that is not below \<open>x\<close>.  This is the reading of the specification's
  \<^verbatim>\<open>round_up(next_tid, MAX_MASTERS)\<close>, to be compared with what the code computes.
\<close>

definition spec_round_up :: "nat \<Rightarrow> nat \<Rightarrow> nat" where
  "spec_round_up x m = ((x + m - 1) div m) * m"

text \<open>A mount with an empty cache pool, and constants as in the scenarios.\<close>

definition mount0 :: "int \<Rightarrow> hammer_tid_t \<Rightarrow> hammer_mount" where
  "mount0 mid tid =
     \<lparr>master_id = mid, next_tid = tid, objid_cache_list = [], objid_cache_count = 0,
      ocp_heap = (\<lambda>_. None), ocp_brk = 0, inode_objid_cache = (\<lambda>_. None)\<rparr>"

definition consts0 :: "int \<Rightarrow> int \<Rightarrow> hammer_consts" where
  "consts0 cap bulk =
     \<lparr>HAMMER_MAX_MASTERS = 16, OBJID_CACHE_SIZE = cap, OBJID_CACHE_BULK = bulk,
      HAMMER_TRANSF_NEWINODE = 1, HAMMER_TRANSF_DIDIO = 2\<rparr>"

text \<open>
  The id \<^verbatim>\<open>hammer_alloc_tid\<close> computes and the value it leaves in \<open>next_tid\<close>, as
  functions of the mount.
\<close>

definition alloc_tid_id :: "hammer_consts \<Rightarrow> hammer_mount \<Rightarrow> hammer_tid_t" where
  "alloc_tid_id c hmp =
     (if master_id hmp < 0 then next_tid hmp + 1
      else ((next_tid hmp + word_of_int (HAMMER_MAX_MASTERS c)) AND
            NOT (word_of_int (HAMMER_MAX_MASTERS c - 1))) OR word_of_int (master_id hmp))"

definition alloc_tid_next :: "hammer_consts \<Rightarrow> hammer_mount \<Rightarrow> int \<Rightarrow> hammer_tid_t" where
  "alloc_tid_next c hmp n =
     (if master_id hmp < 0 then next_tid hmp + 1 + word_of_int n
      else ((next_tid hmp + word_of_int (HAMMER_MAX_MASTERS c)) AND
            NOT (word_of_int (HAMMER_MAX_MASTERS c - 1))) +
           word_of_int (int32 (n * HAMMER_MAX_MASTERS c)))"

text \<open>
  The shape of the cache between two calls: the queue holds every allocated entry once,
  the counter is the length of the queue, addresses in use are below the next one
  \<^verbatim>\<open>kmalloc\<close> returns, and a directory points to an entry exactly when the entry points
  back to it.
\<close>

definition objid_wf ::
  "hammer_objid_cache_t list \<Rightarrow> int \<Rightarrow> (hammer_objid_cache_t \<Rightarrow> hammer_objid_cache option) \<Rightarrow>
     nat \<Rightarrow> (hammer_inode_t \<Rightarrow> hammer_objid_cache_t option) \<Rightarrow> bool"
where
  "objid_wf q n h b ino =
     (distinct q \<and> n = int (length q) \<and>
      (\<forall>a. (h a \<noteq> None) = (a \<in> set q)) \<and>
      (\<forall>a. a \<in> set q \<longrightarrow> a < b) \<and>
      (\<forall>d a. (ino d = Some a) = (\<exists>ent. h a = Some ent \<and> oc_dip ent = Some d)))"

definition objid_inv :: "hammer_mount \<Rightarrow> bool" where
  "objid_inv hmp =
     objid_wf (objid_cache_list hmp) (objid_cache_count hmp) (ocp_heap hmp) (ocp_brk hmp)
       (inode_objid_cache hmp)"

text \<open>
  The mount as the loop of \<^verbatim>\<open>hammer_alloc_objid\<close> leaves it, for a directory without
  an entry: \<open>bind_fresh\<close> when there is room in the pool (the new entry has the address
  \<open>ocp_brk hmp\<close>), \<open>bind_first\<close> when the first entry \<open>ocp\<close> of the queue, with the
  contents \<open>ent\<close>, is taken over.
\<close>

definition bind_fresh :: "hammer_consts \<Rightarrow> hammer_mount \<Rightarrow> hammer_inode_t \<Rightarrow> hammer_mount" where
  "bind_fresh c hmp dip =
     hmp\<lparr>next_tid := alloc_tid_next c hmp (OBJID_CACHE_BULK c),
         objid_cache_list := ocp_brk hmp # objid_cache_list hmp,
         objid_cache_count := objid_cache_count hmp + 1,
         ocp_heap := (ocp_heap hmp)(ocp_brk hmp \<mapsto>
            \<lparr>oc_dip = Some dip, oc_next_tid = alloc_tid_id c hmp,
             oc_count = OBJID_CACHE_BULK c\<rparr>),
         ocp_brk := Suc (ocp_brk hmp),
         inode_objid_cache := (inode_objid_cache hmp)(dip \<mapsto> ocp_brk hmp)\<rparr>"

definition bind_first ::
  "hammer_mount \<Rightarrow> hammer_inode_t \<Rightarrow> hammer_objid_cache_t \<Rightarrow> hammer_objid_cache \<Rightarrow> hammer_mount"
where
  "bind_first hmp dip ocp ent =
     hmp\<lparr>inode_objid_cache :=
           ((case oc_dip ent of None \<Rightarrow> inode_objid_cache hmp
             | Some d \<Rightarrow> (inode_objid_cache hmp)(d := None)))(dip \<mapsto> ocp),
         ocp_heap := (ocp_heap hmp)(ocp \<mapsto> ent\<lparr>oc_dip := Some dip\<rparr>)\<rparr>"

text \<open>
  The distance between two ids of one cache entry, the ids an entry has left (read as
  natural numbers), and the relation between the ids handed out so far (the set \<open>S\<close>),
  the ids left in the entries and \<open>next_tid\<close> (the number \<open>F\<close>): all of them are below
  \<open>next_tid\<close>, no id left in an entry has been handed out, no two entries share an id,
  and the next reservation does not wrap around unless nothing has been reserved yet.
\<close>

definition stride :: "hammer_consts \<Rightarrow> hammer_mount \<Rightarrow> nat" where
  "stride c hmp = (if master_id hmp < 0 then 1 else nat (HAMMER_MAX_MASTERS c))"

definition ent_ids :: "nat \<Rightarrow> hammer_objid_cache \<Rightarrow> nat set" where
  "ent_ids k ent = (\<lambda>i. unat (oc_next_tid ent) + i * k) ` {..<nat (oc_count ent)}"

definition ids_wf ::
  "nat \<Rightarrow> nat \<Rightarrow> (hammer_objid_cache_t \<Rightarrow> hammer_objid_cache option) \<Rightarrow> nat set \<Rightarrow> bool"
where
  "ids_wf k F h S =
     ((\<forall>a ent. h a = Some ent \<longrightarrow>
         0 < oc_count ent \<and> (\<forall>x\<in>ent_ids k ent. x < F) \<and> ent_ids k ent \<inter> S = {}) \<and>
      (\<forall>x\<in>S. x < F) \<and>
      (\<forall>a b ea eb. a \<noteq> b \<and> h a = Some ea \<and> h b = Some eb \<longrightarrow>
         ent_ids k ea \<inter> ent_ids k eb = {}) \<and>
      ((S = {} \<and> (\<forall>a. h a = None)) \<or> F + k < 2 ^ 64))"

definition ids_inv :: "hammer_consts \<Rightarrow> hammer_mount \<Rightarrow> nat set \<Rightarrow> bool" where
  "ids_inv c hmp S = ids_wf (stride c hmp) (unat (next_tid hmp)) (ocp_heap hmp) S"

text \<open>
  The constants for which the ids of the cache entries stay apart: at least one id per
  entry and, with \<open>mid\<close> the master id of the mount, a reservation that fits into the
  \<open>2 ^ 24\<close> ids the TID allocator keeps free below \<open>2 ^ 64\<close>; in multi-master mode
  also \<^verbatim>\<open>HAMMER_MAX_MASTERS\<close> a power of two and the master id below it.
\<close>

definition objid_params_ok :: "hammer_consts \<Rightarrow> int \<Rightarrow> bool" where
  "objid_params_ok c mid =
     (1 \<le> OBJID_CACHE_BULK c \<and>
      (if mid < 0 then OBJID_CACHE_BULK c < 2 ^ 24
       else (\<exists>j. HAMMER_MAX_MASTERS c = 2 ^ j) \<and> mid < HAMMER_MAX_MASTERS c \<and>
            HAMMER_MAX_MASTERS c * (OBJID_CACHE_BULK c + 1) \<le> 2 ^ 24))"

text \<open>A transaction with the given type, lock count and flags.\<close>

definition trans0 :: "hammer_transaction_type \<Rightarrow> int \<Rightarrow> int \<Rightarrow> hammer_transaction" where
  "trans0 ty refs flags =
     \<lparr>tr_type = ty, tr_rootvol = Some 0, tr_tid = 0, tr_sync_lock_refs = refs,
      tr_flags = flags, tr_time = 0, tr_time32 = 0\<rparr>"

section \<open>Properties of the TID allocator\<close>

lemma alloc_tid_single:
  "master_id hmp < 0 \<Longrightarrow>
   hammer_alloc_tid c hmp n =
     (if TID_LIMIT \<le> next_tid hmp + 1 then Inl Panic_out_of_TIDs
      else Inr (next_tid hmp + 1, hmp\<lparr>next_tid := next_tid hmp + 1 + word_of_int n\<rparr>))"
  by (simp add: hammer_alloc_tid_def Let_def)

lemma alloc_tid_multi:
  "0 \<le> master_id hmp \<Longrightarrow>
   hammer_alloc_tid c hmp n =
     (let base = (next_tid hmp + word_of_int (HAMMER_MAX_MASTERS c)) AND
                 NOT (word_of_int (HAMMER_MAX_MASTERS c - 1))
      in if TID_LIMIT \<le> (base OR word_of_int (master_id hmp)) then Inl Panic_out_of_TIDs
         else Inr (base OR word_of_int (master_id hmp),
                   hmp\<lparr>next_tid := base + word_of_int (int32 (n * HAMMER_MAX_MASTERS c))\<rparr>))"
  by (simp add: hammer_alloc_tid_def Let_def)

lemma int32_id: "- (2 ^ 31) \<le> x \<Longrightarrow> x < 2 ^ 31 \<Longrightarrow> int32 x = x"
  by (simp add: int32_def signed_take_bit_int_eq_self)

subsection \<open>Word arithmetic\<close>

lemma and_not_mask_pd: "(w::'a::len word) AND NOT (mask k) = push_bit k (drop_bit k w)"
  by (rule bit_word_eqI) (auto simp: bit_simps)

lemma and_not_mask_of_nat:
  "(w::'a::len word) AND NOT (mask k) = word_of_nat (unat w div 2 ^ k * 2 ^ k)"
proof -
  have "drop_bit k w = word_of_nat (unat w div 2 ^ k)"
    by (metis drop_bit_eq_div of_nat_unat ucast_id unat_drop_bit_eq)
  then show ?thesis
    by (simp add: and_not_mask_pd push_bit_eq_mult)
qed

lemma unat_2p64: "k < 64 \<Longrightarrow> unat (2 ^ k :: 64 word) = 2 ^ k"
proof -
  assume k: "k < 64"
  have lt: "(2::nat) ^ k < 2 ^ LENGTH(64)"
    by (rule power_strict_increasing) (use k in simp_all)
  have "unat (word_of_nat (2 ^ k) :: 64 word) = 2 ^ k"
    by (simp only: unat_of_nat mod_less [OF lt])
  then show ?thesis by simp
qed

lemma nat_round_mod:
  fixes W P Q :: nat
  assumes "0 < P"
  shows "((W + P) mod (P * Q)) div P * P mod (P * Q) = (W div P + 1) * P mod (P * Q)"
proof -
  have "((W + P) mod (P * Q)) div P = ((W + P) div P) mod Q"
    using assms by (simp add: mod_mult2_eq)
  also have "(W + P) div P = W div P + 1"
    using assms div_add_self2 by blast
  finally have "((W + P) mod (P * Q)) div P * P = ((W div P + 1) mod Q) * P" by simp
  also have "\<dots> = ((W div P + 1) * P) mod (P * Q)"
    by (simp add: mult.commute mult_mod_right)
  finally show ?thesis by simp
qed

text \<open>
  What the mask of the multi-master branch computes when \<^verbatim>\<open>HAMMER_MAX_MASTERS\<close> is a
  power of two: the first multiple of it above the argument, modulo \<open>2 ^ 64\<close>.
\<close>

lemma round_next_multiple:
  fixes w :: "64 word"
  assumes "k < 64"
  shows "(w + 2 ^ k) AND NOT (2 ^ k - 1) = word_of_nat ((unat w div 2 ^ k + 1) * 2 ^ k)"
proof -
  have N: "(2::nat) ^ 64 = 2 ^ k * 2 ^ (64 - k)"
    using assms by (simp flip: power_add)
  have "(w + 2 ^ k) AND NOT (mask k) =
        word_of_nat (((unat w + 2 ^ k) mod 2 ^ 64) div 2 ^ k * 2 ^ k)"
    using assms by (simp add: and_not_mask_of_nat unat_word_ariths unat_2p64)
  also have "\<dots> = word_of_nat ((unat w div 2 ^ k + 1) * 2 ^ k)"
  proof -
    have "((unat w + 2 ^ k) mod 2 ^ 64) div 2 ^ k * 2 ^ k mod 2 ^ 64 =
          (unat w div 2 ^ k + 1) * 2 ^ k mod 2 ^ 64"
      unfolding N by (rule nat_round_mod) simp
    then show ?thesis
      by (simp only: word_of_nat_eq_iff take_bit_eq_mod len_bit0 len_num1) simp
  qed
  finally show ?thesis by (simp add: mask_eq_exp_minus_1)
qed

lemma unat_word_of_int_small:
  "0 \<le> n \<Longrightarrow> n < 2 ^ 64 \<Longrightarrow> unat (word_of_int n :: 64 word) = nat n"
  by (simp add: unat_eq_nat_uint uint_word_of_int)

lemma unat_add_small:
  fixes a :: "64 word"
  assumes "0 \<le> n" and "unat a + nat n < 2 ^ 64"
  shows "unat (a + word_of_int n) = unat a + nat n"
proof -
  have "nat n < 2 ^ 64" using assms(2) by simp
  then have "n < 2 ^ 64" using assms(1) by (simp add: nat_less_iff)
  then have "unat (word_of_int n :: 64 word) = nat n"
    using assms(1) by (rule unat_word_of_int_small [rotated])
  then show ?thesis
    using assms(2) by (simp add: unat_word_ariths)
qed

lemma unat_succ:
  fixes a :: "64 word"
  shows "unat a < 2 ^ 64 - 1 \<Longrightarrow> unat (a + 1) = unat a + 1"
  by (simp add: unat_word_ariths)

subsection \<open>Single-master allocations in series\<close>

lemma alloc_tid_single_step:
  assumes "master_id hmp < 0" and "0 \<le> n" and "n < 2 ^ 24"
    and "hammer_alloc_tid c hmp n = Inr (tid, hmp1)"
  shows "master_id hmp1 = master_id hmp"
    and "unat (next_tid hmp1) = unat tid + nat n"
    and "unat (next_tid hmp1) < 2 ^ 64 - 1"
    and "unat (next_tid hmp) < 2 ^ 64 - 1 \<Longrightarrow> unat tid = unat (next_tid hmp) + 1"
proof -
  from assms(1,4) have t: "tid = next_tid hmp + 1" and lim: "\<not> TID_LIMIT \<le> tid"
    and h: "hmp1 = hmp\<lparr>next_tid := tid + word_of_int n\<rparr>"
    by (auto simp: alloc_tid_single split: if_splits)
  from lim have tl: "unat tid < 0xFFFFFFFFFF000000"
    by (simp add: TID_LIMIT_def word_le_nat_alt)
  show "master_id hmp1 = master_id hmp" by (simp add: h)
  have "nat n < 2 ^ 24" using assms(2,3) by (simp add: nat_less_iff)
  with tl have sm: "unat tid + nat n < 2 ^ 64 - 1"
    by simp
  then have "unat (tid + word_of_int n) = unat tid + nat n"
    by (intro unat_add_small assms(2)) simp
  with sm show "unat (next_tid hmp1) = unat tid + nat n"
    and "unat (next_tid hmp1) < 2 ^ 64 - 1"
    by (simp_all add: h)
  show "unat tid = unat (next_tid hmp) + 1" if "unat (next_tid hmp) < 2 ^ 64 - 1"
    using that unfolding t by (rule unat_succ)
qed

lemma alloc_tid_seq_above:
  assumes "master_id hmp < 0" and "\<forall>n\<in>set counts. 0 \<le> n \<and> n < 2 ^ 24"
    and "unat (next_tid hmp) < 2 ^ 64 - 1"
    and "alloc_tid_seq c hmp counts = Inr (bases, hmp')"
  shows "\<forall>b\<in>set bases. unat (next_tid hmp) < unat b"
  using assms
proof (induction counts arbitrary: hmp bases)
  case Nil
  then show ?case by simp
next
  case (Cons n ns)
  from Cons.prems(4) obtain tid hmp1 tids where
    s: "hammer_alloc_tid c hmp n = Inr (tid, hmp1)"
    and r: "alloc_tid_seq c hmp1 ns = Inr (tids, hmp')" and b: "bases = tid # tids"
    by (auto split: sum.splits prod.splits)
  from Cons.prems(2) have n: "0 \<le> n" "n < 2 ^ 24"
    and ns: "\<forall>n\<in>set ns. 0 \<le> n \<and> n < 2 ^ 24" by simp_all
  note st = alloc_tid_single_step [OF Cons.prems(1) n s]
  have m1: "master_id hmp1 < 0" using st(1) Cons.prems(1) by simp
  have "\<forall>b\<in>set tids. unat (next_tid hmp1) < unat b"
    by (rule Cons.IH [OF m1 ns st(3) r])
  then show ?case
    using st(2) st(4) [OF Cons.prems(3)] b by auto
qed

lemma alloc_tid_seq_ordered:
  assumes "master_id hmp < 0" and "\<forall>n\<in>set counts. 0 \<le> n \<and> n < 2 ^ 24"
    and "alloc_tid_seq c hmp counts = Inr (bases, hmp')"
  shows "length bases = length counts \<and>
         (\<forall>i j. i < j \<and> j < length counts \<longrightarrow>
            unat (bases ! i) + nat (counts ! i) < unat (bases ! j))"
  using assms
proof (induction counts arbitrary: hmp bases)
  case Nil
  then show ?case by simp
next
  case (Cons n ns)
  from Cons.prems(3) obtain tid hmp1 tids where
    s: "hammer_alloc_tid c hmp n = Inr (tid, hmp1)"
    and r: "alloc_tid_seq c hmp1 ns = Inr (tids, hmp')" and b: "bases = tid # tids"
    by (auto split: sum.splits prod.splits)
  from Cons.prems(2) have n: "0 \<le> n" "n < 2 ^ 24" and ns: "\<forall>n\<in>set ns. 0 \<le> n \<and> n < 2 ^ 24"
    by simp_all
  note st = alloc_tid_single_step [OF Cons.prems(1) n s]
  have m1: "master_id hmp1 < 0" using st(1) Cons.prems(1) by simp
  have ih: "length tids = length ns \<and>
         (\<forall>i j. i < j \<and> j < length ns \<longrightarrow> unat (tids ! i) + nat (ns ! i) < unat (tids ! j))"
    by (rule Cons.IH [OF m1 ns r])
  have above: "\<forall>b\<in>set tids. unat tid + nat n < unat b"
    using alloc_tid_seq_above [OF m1 ns st(3) r] st(2) by simp
  show ?case
  proof (intro conjI allI impI)
    show "length bases = length (n # ns)" using ih b by simp
  next
    fix i j assume ij: "i < j \<and> j < length (n # ns)"
    then obtain j' where j': "j = Suc j'" "j' < length ns" by (cases j) auto
    show "unat (bases ! i) + nat ((n # ns) ! i) < unat (bases ! j)"
    proof (cases i)
      case 0
      have "tids ! j' \<in> set tids" using j' ih by simp
      then show ?thesis using above 0 j' b by simp
    next
      case (Suc i')
      then show ?thesis using ih ij j' b by simp
    qed
  qed
qed

text \<open>
  C1, as the specification states it: for every series of single-master allocations
  \<open>allocate(count\<^sub>1)\<close>, \<open>allocate(count\<^sub>2)\<close>, ... on one mount the returned ranges
  \<open>[base\<^sub>i, base\<^sub>i + count\<^sub>i)\<close> are pairwise disjoint and the bases strictly increase.
  This fails for counts the allocator does not guard against.  The panic leaves a
  margin of \<open>2 ^ 24\<close> ids below \<open>2 ^ 64\<close>: a call that returns the last id below the
  limit with a count of \<open>2 ^ 24\<close> moves \<open>next_tid\<close> to \<open>2 ^ 64 - 1\<close>, and the next
  base wraps around to 0.  A negative count moves \<open>next_tid\<close> backwards: after
  \<open>allocate(-1)\<close> the same base is returned again.
\<close>

theorem C1_counts_out_of_range_counterexample:
  "alloc_tid_seq (consts0 1 4) (mount0 (- 1) 0xFFFFFFFFFEFFFFFE) [16777216, 1] =
     Inr ([0xFFFFFFFFFEFFFFFF, 0], mount0 (- 1) 1) \<and>
   \<not> (0xFFFFFFFFFEFFFFFF :: 64 word) < 0 \<and>
   alloc_tid_seq (consts0 1 4) (mount0 (- 1) 100) [- 1, 1] =
     Inr ([101, 101], mount0 (- 1) 102) \<and>
   \<not> (101 :: 64 word) < 101"
  by (simp add: alloc_tid_single mount0_def TID_LIMIT_def)

text \<open>
  C1, amended: for every series of single-master allocations on one mount with counts
  \<open>0 \<le> count\<^sub>i < 2 ^ 24\<close> in which every call returns, the bases strictly increase with
  the order of the calls, each range \<open>[base\<^sub>i, base\<^sub>i + count\<^sub>i)\<close> ends at or below
  every later base, and the ranges are pairwise disjoint.  The mount may start with any
  \<open>next_tid\<close>.
\<close>

theorem C1_single_master_ranges:
  assumes "master_id hmp < 0"
    and "\<forall>n\<in>set counts. 0 \<le> n \<and> n < 2 ^ 24"
    and "alloc_tid_seq c hmp counts = Inr (bases, hmp')"
  shows "length bases = length counts \<and>
         (\<forall>i j. i < j \<and> j < length counts \<longrightarrow>
            bases ! i < bases ! j \<and>
            unat (bases ! i) + nat (counts ! i) \<le> unat (bases ! j) \<and>
            {unat (bases ! i) ..< unat (bases ! i) + nat (counts ! i)} \<inter>
            {unat (bases ! j) ..< unat (bases ! j) + nat (counts ! j)} = {})"
proof -
  note o = alloc_tid_seq_ordered [OF assms]
  show ?thesis
  proof (intro conjI allI impI)
    show "length bases = length counts" using o by simp
  next
    fix i j assume ij: "i < j \<and> j < length counts"
    with o have lt: "unat (bases ! i) + nat (counts ! i) < unat (bases ! j)" by blast
    then show "bases ! i < bases ! j" by (simp add: word_less_nat_alt)
    from lt show "unat (bases ! i) + nat (counts ! i) \<le> unat (bases ! j)" by simp
    from lt show "{unat (bases ! i) ..< unat (bases ! i) + nat (counts ! i)} \<inter>
            {unat (bases ! j) ..< unat (bases ! j) + nat (counts ! j)} = {}" by auto
  qed
qed

theorem C1_single_master_ranges_witness:
  "alloc_tid_seq (consts0 1 4) (mount0 (- 1) 100) [1, 5, 0, 3] =
     Inr ([101, 103, 109, 110], mount0 (- 1) 113) \<and>
   [101, 103, 109, 110 :: 64 word] ! 1 < [101, 103, 109, 110] ! 3 \<and>
   {unat ([101, 103, 109, 110 :: 64 word] ! 1) ..<
      unat ([101, 103, 109, 110 :: 64 word] ! 1) + nat ([1, 5, 0, 3] ! 1)} \<inter>
   {unat ([101, 103, 109, 110 :: 64 word] ! 3) ..<
      unat ([101, 103, 109, 110 :: 64 word] ! 3) + nat ([1, 5, 0, 3] ! 3)} = {}"
proof -
  have run: "alloc_tid_seq (consts0 1 4) (mount0 (- 1) 100) [1, 5, 0, 3] =
     Inr ([101, 103, 109, 110], mount0 (- 1) 113)"
    by (simp add: alloc_tid_single mount0_def TID_LIMIT_def)
  have m: "master_id (mount0 (- 1) 100) < 0" by (simp add: mount0_def)
  have r: "\<forall>n\<in>set [1, 5, 0, 3 :: int]. 0 \<le> n \<and> n < 2 ^ 24" by simp
  have ij: "(1::nat) < 3 \<and> 3 < length [1, 5, 0, 3 :: int]" by simp
  from C1_single_master_ranges [OF m r run, THEN conjunct2, rule_format, OF ij] run
  show ?thesis by blast
qed

subsection \<open>The multi-master base\<close>

text \<open>
  C3, as the specification states it: in multi-master mode, for every prior \<open>next_tid\<close>
  and every count, \<open>allocate(count)\<close> computes \<open>base = round_up(next_tid, MAX_MASTERS)\<close>,
  sets \<open>next_tid = base + count * MAX_MASTERS\<close> and returns \<open>base | master_id\<close>.  The
  code adds \<^verbatim>\<open>HAMMER_MAX_MASTERS\<close> before it masks, so from a \<open>next_tid\<close> that is
  already a multiple (112) it moves on to the next multiple (128, returning 130),
  where rounding up gives 112 (returning 114).  From a \<open>next_tid\<close> just below the
  limit the call does not return.  And the product \<^verbatim>\<open>count * HAMMER_MAX_MASTERS\<close> is
  one of two \<^verbatim>\<open>int\<close>s: with a count of \<open>2 ^ 27\<close> and 16 masters it is \<open>- 2 ^ 31\<close> in 32
  bits, so \<open>next_tid\<close> is left at \<open>0xFFFFFFFF80000070\<close> and not at
  \<open>112 + 2 ^ 31\<close>.
\<close>

theorem C3_aligned_next_tid_counterexample:
  "hammer_alloc_tid (consts0 1 4) (mount0 2 112) 1 = Inr (130, mount0 2 144) \<and>
   (word_of_nat (spec_round_up 112 16) OR word_of_int 2,
    word_of_nat (spec_round_up 112 16) + word_of_int (1 * 16)) =
     (114 :: 64 word, 128 :: 64 word) \<and>
   hammer_alloc_tid (consts0 1 4) (mount0 2 0xFFFFFFFFFEFFFFF0) 1 = Inl Panic_out_of_TIDs \<and>
   hammer_alloc_tid (consts0 1 4) (mount0 2 100) 134217728 =
     Inr (114, mount0 2 0xFFFFFFFF80000070) \<and>
   (112 + word_of_int (134217728 * 16) :: 64 word) = 2147483760"
  by (simp add: alloc_tid_multi mount0_def consts0_def TID_LIMIT_def spec_round_up_def
        int32_def)

text \<open>
  C3, amended: in multi-master mode (\<open>master_id \<ge> 0\<close>) with \<^verbatim>\<open>HAMMER_MAX_MASTERS\<close> a
  power of two \<open>2 ^ k\<close> (an \<^verbatim>\<open>int\<close>, so \<open>k < 31\<close>), for every prior \<open>next_tid\<close> and
  every count, \<open>allocate(count)\<close> computes as base the first multiple of \<open>MAX_MASTERS\<close>
  strictly above \<open>next_tid\<close> (modulo \<open>2 ^ 64\<close>), adds to it the product
  \<open>count * MAX_MASTERS\<close> as 32-bit arithmetic gives it to obtain the new \<open>next_tid\<close>,
  and returns \<open>base | master_id\<close>, unless that id has reached the limit
  \<open>0xFFFFFFFFFF000000\<close>, in which case it panics.  For every count whose product with
  \<open>MAX_MASTERS\<close> fits into 32 bits this is \<open>next_tid = base + count * MAX_MASTERS\<close>.
  In particular with \<open>master_id = 2\<close>, \<open>MAX_MASTERS = 16\<close>, \<open>next_tid = 100\<close>,
  \<open>allocate(1)\<close> returns 114 and leaves \<open>next_tid = 128\<close>.
\<close>

theorem C3_multi_master:
  "(0 \<le> master_id hmp \<and> HAMMER_MAX_MASTERS c = 2 ^ k \<and> k < 31 \<longrightarrow>
      hammer_alloc_tid c hmp n =
        (let base = word_of_nat ((unat (next_tid hmp) div 2 ^ k + 1) * 2 ^ k);
             tid = base OR word_of_int (master_id hmp)
         in if TID_LIMIT \<le> tid then Inl Panic_out_of_TIDs
            else Inr (tid, hmp\<lparr>next_tid := base + word_of_int (int32 (n * 2 ^ k))\<rparr>))) \<and>
   (0 \<le> master_id hmp \<and> HAMMER_MAX_MASTERS c = 2 ^ k \<and> k < 31 \<and>
    - (2 ^ 31) \<le> n * 2 ^ k \<and> n * 2 ^ k < 2 ^ 31 \<longrightarrow>
      hammer_alloc_tid c hmp n =
        (let base = word_of_nat ((unat (next_tid hmp) div 2 ^ k + 1) * 2 ^ k);
             tid = base OR word_of_int (master_id hmp)
         in if TID_LIMIT \<le> tid then Inl Panic_out_of_TIDs
            else Inr (tid, hmp\<lparr>next_tid := base + word_of_int (n * 2 ^ k)\<rparr>))) \<and>
   hammer_alloc_tid (consts0 cap bulk) (mount0 2 100) 1 = Inr (114, mount0 2 128)"
  (is "?P1 \<and> ?P2 \<and> ?P3")
proof -
  have g: "hammer_alloc_tid c hmp n =
        (let base = word_of_nat ((unat (next_tid hmp) div 2 ^ k + 1) * 2 ^ k);
             tid = base OR word_of_int (master_id hmp)
         in if TID_LIMIT \<le> tid then Inl Panic_out_of_TIDs
            else Inr (tid, hmp\<lparr>next_tid := base + word_of_int (int32 (n * 2 ^ k))\<rparr>))"
    if a: "0 \<le> master_id hmp" "HAMMER_MAX_MASTERS c = 2 ^ k" "k < 31"
  proof -
    from a(3) have k: "k < 64" by simp
    have "(next_tid hmp + word_of_int (HAMMER_MAX_MASTERS c)) AND
               NOT (word_of_int (HAMMER_MAX_MASTERS c - 1)) =
             word_of_nat ((unat (next_tid hmp) div 2 ^ k + 1) * 2 ^ k)"
      using round_next_multiple [OF k, of "next_tid hmp"] a(2) by (simp add: word_of_int_2p)
    then show ?thesis
      unfolding alloc_tid_multi [OF a(1)] Let_def a(2) by (simp only:)
  qed
  have P1: ?P1 using g by blast
  have P2: ?P2
  proof (rule impI)
    assume a: "0 \<le> master_id hmp \<and> HAMMER_MAX_MASTERS c = 2 ^ k \<and> k < 31 \<and>
      - (2 ^ 31) \<le> n * 2 ^ k \<and> n * 2 ^ k < 2 ^ 31"
    then have e: "int32 (n * 2 ^ k) = n * 2 ^ k" by (intro int32_id) simp_all
    from a have p: "0 \<le> master_id hmp" "HAMMER_MAX_MASTERS c = 2 ^ k" "k < 31" by simp_all
    show "hammer_alloc_tid c hmp n =
        (let base = word_of_nat ((unat (next_tid hmp) div 2 ^ k + 1) * 2 ^ k);
             tid = base OR word_of_int (master_id hmp)
         in if TID_LIMIT \<le> tid then Inl Panic_out_of_TIDs
            else Inr (tid, hmp\<lparr>next_tid := base + word_of_int (n * 2 ^ k)\<rparr>))"
      by (simp only: g [OF p] e)
  qed
  have P3: ?P3
    by (simp add: alloc_tid_multi mount0_def consts0_def TID_LIMIT_def int32_def)
  from P1 P2 P3 show ?thesis by (intro conjI)
qed

theorem C3_multi_master_witness:
  "hammer_alloc_tid (consts0 1 4) (mount0 5 4096) 3 = Inr (4117, mount0 5 4160)"
  using C3_multi_master [of "mount0 5 4096" "consts0 1 4" 4 3]
  by (simp add: mount0_def consts0_def TID_LIMIT_def int32_def)

subsection \<open>Two allocations in single-master mode\<close>

text \<open>
  C4, as the specification states it: in single-master mode with \<open>next_tid = 100\<close>,
  \<open>allocate(1)\<close> returns 101 and leaves \<open>next_tid = 102\<close>, and a following
  \<open>allocate(5)\<close> returns 102 and leaves \<open>next_tid = 107\<close>.  The code does not do the
  second half: the base of every single-master allocation is \<open>next_tid + 1\<close>, so the
  second call returns 103 and leaves 108.
\<close>

theorem C4_second_allocation_counterexample:
  "hammer_alloc_tid (consts0 1 4) (mount0 (- 1) 102) 5 \<noteq> Inr (102, mount0 (- 1) 107) \<and>
   alloc_tid_seq (consts0 1 4) (mount0 (- 1) 100) [1, 5] \<noteq>
     Inr ([101, 102], mount0 (- 1) 107)"
  by (simp add: alloc_tid_single mount0_def TID_LIMIT_def)

text \<open>
  C4, amended: in single-master mode with \<open>next_tid = 100\<close>, \<open>allocate(1)\<close> returns 101
  and leaves \<open>next_tid = 102\<close>, and a following \<open>allocate(5)\<close> returns 103 and leaves
  \<open>next_tid = 108\<close>.
\<close>

theorem C4_scenario:
  "hammer_alloc_tid c (mount0 (- 1) 100) 1 = Inr (101, mount0 (- 1) 102) \<and>
   hammer_alloc_tid c (mount0 (- 1) 102) 5 = Inr (103, mount0 (- 1) 108) \<and>
   alloc_tid_seq c (mount0 (- 1) 100) [1, 5] = Inr ([101, 103], mount0 (- 1) 108)"
  by (simp add: alloc_tid_single mount0_def TID_LIMIT_def)

theorem C4_scenario_witness:
  "alloc_tid_seq (consts0 1 4) (mount0 (- 1) 100) [1, 5] = Inr ([101, 103], mount0 (- 1) 108)"
  using C4_scenario [of "consts0 1 4"] by simp

subsection \<open>Exhaustion of the id space\<close>

text \<open>
  C6: \<^verbatim>\<open>hammer_alloc_tid\<close> panics, and does not return an error value, exactly when the
  id it is about to return has reached \<open>0xFFFFFFFFFF000000\<close>; every call whose
  computed id is below that bound returns that id.
\<close>

theorem C6_panic_exactly_at_limit:
  "(hammer_alloc_tid c hmp n = Inl Panic_out_of_TIDs) =
     (TID_LIMIT \<le> (if master_id hmp < 0 then next_tid hmp + 1
                   else ((next_tid hmp + word_of_int (HAMMER_MAX_MASTERS c)) AND
                         NOT (word_of_int (HAMMER_MAX_MASTERS c - 1))) OR
                        word_of_int (master_id hmp))) \<and>
   (\<forall>e. hammer_alloc_tid c hmp n = Inl e \<longrightarrow> e = Panic_out_of_TIDs) \<and>
   (\<forall>tid hmp'. hammer_alloc_tid c hmp n = Inr (tid, hmp') \<longrightarrow>
      unat tid < 0xFFFFFFFFFF000000 \<and>
      tid = (if master_id hmp < 0 then next_tid hmp + 1
             else ((next_tid hmp + word_of_int (HAMMER_MAX_MASTERS c)) AND
                   NOT (word_of_int (HAMMER_MAX_MASTERS c - 1))) OR
                  word_of_int (master_id hmp))) \<and>
   (hammer_alloc_tid c hmp n \<noteq> Inl Panic_out_of_TIDs \<longrightarrow>
      (\<exists>tid hmp'. hammer_alloc_tid c hmp n = Inr (tid, hmp')))"
  by (auto simp: hammer_alloc_tid_def Let_def TID_LIMIT_def word_le_nat_alt split: if_splits)

theorem C6_panic_exactly_at_limit_witness:
  "hammer_alloc_tid (consts0 1 4) (mount0 (- 1) 0xFFFFFFFFFEFFFFFF) 1 = Inl Panic_out_of_TIDs \<and>
   hammer_alloc_tid (consts0 1 4) (mount0 (- 1) 0xFFFFFFFFFEFFFFFE) 1 =
     Inr (0xFFFFFFFFFEFFFFFF, mount0 (- 1) 0xFFFFFFFFFF000000)"
  using C6_panic_exactly_at_limit [of "consts0 1 4" "mount0 (- 1) 0xFFFFFFFFFEFFFFFF" 1]
        C6_panic_exactly_at_limit [of "consts0 1 4" "mount0 (- 1) 0xFFFFFFFFFEFFFFFE" 1]
  by (simp add: mount0_def consts0_def TID_LIMIT_def alloc_tid_single)

section \<open>Properties of the end of a transaction\<close>

text \<open>
  C7: \<^verbatim>\<open>hammer_done_transaction\<close> fails its assertion exactly when \<open>sync_lock_refs\<close>
  differs from the value expected for the type of the transaction, 1 for a flusher
  transaction and 0 for a standard or read-only one; otherwise it completes, with
  \<open>sync_lock_refs\<close> reset to 0 (and the root volume released and cleared).
\<close>

theorem C7_done_transaction_assertion:
  "(snd (hammer_done_transaction c tr) = Inl KKASSERT_failed) =
     (tr_sync_lock_refs tr \<noteq> (if tr_type tr = HAMMER_TRANS_FLS then 1 else 0)) \<and>
   (tr_sync_lock_refs tr = (if tr_type tr = HAMMER_TRANS_FLS then 1 else 0) \<longrightarrow>
      snd (hammer_done_transaction c tr) =
        Inr (tr\<lparr>tr_rootvol := None, tr_sync_lock_refs := 0\<rparr>))"
  by (simp add: hammer_done_transaction_def Let_def)

theorem C7_done_transaction_assertion_witness:
  "snd (hammer_done_transaction (consts0 1 4) (trans0 HAMMER_TRANS_FLS 0 0)) =
     Inl KKASSERT_failed \<and>
   snd (hammer_done_transaction (consts0 1 4) (trans0 HAMMER_TRANS_STD 1 0)) =
     Inl KKASSERT_failed \<and>
   snd (hammer_done_transaction (consts0 1 4) (trans0 HAMMER_TRANS_FLS 1 0)) =
     Inr ((trans0 HAMMER_TRANS_FLS 0 0)\<lparr>tr_rootvol := None\<rparr>) \<and>
   snd (hammer_done_transaction (consts0 1 4) (trans0 HAMMER_TRANS_RO 0 3)) =
     Inr ((trans0 HAMMER_TRANS_RO 0 3)\<lparr>tr_rootvol := None\<rparr>)"
  using C7_done_transaction_assertion [of "consts0 1 4" "trans0 HAMMER_TRANS_FLS 0 0"]
        C7_done_transaction_assertion [of "consts0 1 4" "trans0 HAMMER_TRANS_STD 1 0"]
        C7_done_transaction_assertion [of "consts0 1 4" "trans0 HAMMER_TRANS_FLS 1 0"]
        C7_done_transaction_assertion [of "consts0 1 4" "trans0 HAMMER_TRANS_RO 0 3"]
  by (simp add: trans0_def)

text \<open>
  C8, as the specification states it: for every transaction, the end of the
  transaction calls the inode-reclaim wait iff the type is not flusher and the
  \<open>NewInode\<close> flag is set, and the hard-IO wait iff the type is not flusher,
  \<open>NewInode\<close> is not set and \<open>DidIO\<close> is set.  A transaction whose \<open>sync_lock_refs\<close>
  fails the assertion never reaches the waits: a standard transaction with
  \<open>sync_lock_refs = 1\<close> and \<open>NewInode\<close> set releases the root volume and stops.
\<close>

theorem C8_failed_assertion_counterexample:
  "tr_type (trans0 HAMMER_TRANS_STD 1 1) \<noteq> HAMMER_TRANS_FLS \<and>
   tr_flags (trans0 HAMMER_TRANS_STD 1 1) AND HAMMER_TRANSF_NEWINODE (consts0 1 4) \<noteq> 0 \<and>
   hammer_done_transaction (consts0 1 4) (trans0 HAMMER_TRANS_STD 1 1) =
     ([Rel_volume (Some 0)], Inl KKASSERT_failed) \<and>
   Inode_waitreclaims \<notin>
     set (fst (hammer_done_transaction (consts0 1 4) (trans0 HAMMER_TRANS_STD 1 1)))"
  by (simp add: hammer_done_transaction_def Let_def trans0_def consts0_def)

text \<open>
  C8, amended: for every transaction whose \<open>sync_lock_refs\<close> has the value the
  assertion expects, the end of the transaction calls the inode-reclaim wait iff the
  type is not flusher and the \<open>NewInode\<close> flag is set; it calls the hard-IO wait iff the
  type is not flusher, \<open>NewInode\<close> is not set and \<open>DidIO\<close> is set; a flusher
  transaction calls neither, whatever its flags.
\<close>

theorem C8_waits_at_end:
  assumes "tr_sync_lock_refs tr = (if tr_type tr = HAMMER_TRANS_FLS then 1 else 0)"
  shows "(Inode_waitreclaims \<in> set (fst (hammer_done_transaction c tr))) =
           (tr_type tr \<noteq> HAMMER_TRANS_FLS \<and> tr_flags tr AND HAMMER_TRANSF_NEWINODE c \<noteq> 0) \<and>
         (Inode_waithard \<in> set (fst (hammer_done_transaction c tr))) =
           (tr_type tr \<noteq> HAMMER_TRANS_FLS \<and> tr_flags tr AND HAMMER_TRANSF_NEWINODE c = 0 \<and>
            tr_flags tr AND HAMMER_TRANSF_DIDIO c \<noteq> 0) \<and>
         (tr_type tr = HAMMER_TRANS_FLS \<longrightarrow>
            fst (hammer_done_transaction c tr) = [Rel_volume (tr_rootvol tr)])"
  using assms by (simp add: hammer_done_transaction_def Let_def)

theorem C8_waits_at_end_witness:
  "fst (hammer_done_transaction (consts0 1 4) (trans0 HAMMER_TRANS_STD 0 3)) =
     [Rel_volume (Some 0), Inode_waitreclaims] \<and>
   fst (hammer_done_transaction (consts0 1 4) (trans0 HAMMER_TRANS_RO 0 2)) =
     [Rel_volume (Some 0), Inode_waithard] \<and>
   fst (hammer_done_transaction (consts0 1 4) (trans0 HAMMER_TRANS_FLS 1 3)) =
     [Rel_volume (Some 0)] \<and>
   Inode_waitreclaims \<in> set (fst (hammer_done_transaction (consts0 1 4) (trans0 HAMMER_TRANS_STD 0 3))) \<and>
   Inode_waithard \<notin> set (fst (hammer_done_transaction (consts0 1 4) (trans0 HAMMER_TRANS_STD 0 3))) \<and>
   Inode_waithard \<in> set (fst (hammer_done_transaction (consts0 1 4) (trans0 HAMMER_TRANS_RO 0 2)))"
proof -
  have a: "tr_sync_lock_refs (trans0 HAMMER_TRANS_STD 0 3) =
             (if tr_type (trans0 HAMMER_TRANS_STD 0 3) = HAMMER_TRANS_FLS then 1 else 0)"
    and b: "tr_sync_lock_refs (trans0 HAMMER_TRANS_RO 0 2) =
             (if tr_type (trans0 HAMMER_TRANS_RO 0 2) = HAMMER_TRANS_FLS then 1 else 0)"
    and f: "tr_sync_lock_refs (trans0 HAMMER_TRANS_FLS 1 3) =
             (if tr_type (trans0 HAMMER_TRANS_FLS 1 3) = HAMMER_TRANS_FLS then 1 else 0)"
    by (simp_all add: trans0_def)
  have e: "fst (hammer_done_transaction (consts0 1 4) (trans0 HAMMER_TRANS_STD 0 3)) =
             [Rel_volume (Some 0), Inode_waitreclaims]"
    "fst (hammer_done_transaction (consts0 1 4) (trans0 HAMMER_TRANS_RO 0 2)) =
             [Rel_volume (Some 0), Inode_waithard]"
    by (simp_all add: hammer_done_transaction_def Let_def trans0_def consts0_def)
  from C8_waits_at_end [OF a, of "consts0 1 4"] C8_waits_at_end [OF b, of "consts0 1 4"]
       C8_waits_at_end [OF f, of "consts0 1 4"] e
  show ?thesis by (simp add: trans0_def consts0_def)
qed

section \<open>Properties of the object id cache\<close>

subsection \<open>The functions in closed form\<close>

lemmas tailq_defs = TAILQ_FIRST_def TAILQ_INSERT_HEAD_def TAILQ_INSERT_TAIL_def TAILQ_REMOVE_def

lemmas objid_eval = hammer_alloc_objid_def objid_cache_lookup.simps objid_cache_obtain_def
  objid_cache_take_def dfly_kfree_def hammer_clear_objid_def hammer_alloc_tid_def int32_def
  tailq_defs mount0_def consts0_def Let_def TID_LIMIT_def

lemma hammer_alloc_tid_eq:
  "hammer_alloc_tid c hmp n =
     (if TID_LIMIT \<le> alloc_tid_id c hmp then Inl Panic_out_of_TIDs
      else Inr (alloc_tid_id c hmp, hmp\<lparr>next_tid := alloc_tid_next c hmp n\<rparr>))"
  by (simp add: hammer_alloc_tid_def alloc_tid_id_def alloc_tid_next_def Let_def)

lemma alloc_tid_id_frame [simp]:
  "alloc_tid_id c (hmp\<lparr>ocp_brk := b\<rparr>) = alloc_tid_id c hmp"
  "alloc_tid_id c (hmp\<lparr>ocp_heap := h\<rparr>) = alloc_tid_id c hmp"
  "alloc_tid_next c (hmp\<lparr>ocp_brk := b\<rparr>) n = alloc_tid_next c hmp n"
  "alloc_tid_next c (hmp\<lparr>ocp_heap := h\<rparr>) n = alloc_tid_next c hmp n"
  by (simp_all add: alloc_tid_id_def alloc_tid_next_def)

lemma objid_cache_lookup_bound:
  "inode_objid_cache hmp dip = Some ocp \<Longrightarrow> objid_cache_lookup c hmp dip = Inr (ocp, hmp)"
  by (simp add: objid_cache_lookup.simps)

lemma objid_cache_obtain_fresh:
  assumes "objid_cache_count hmp < OBJID_CACHE_SIZE c" and "inode_objid_cache hmp dip = None"
  shows "objid_cache_obtain c hmp dip =
     (if TID_LIMIT \<le> alloc_tid_id c hmp then Inl Panic_out_of_TIDs
      else Inr (bind_fresh c hmp dip))"
  using assms
  by (simp add: objid_cache_obtain_def hammer_alloc_tid_eq Let_def tailq_defs bind_fresh_def)

lemma objid_cache_obtain_evict:
  assumes "\<not> objid_cache_count hmp < OBJID_CACHE_SIZE c"
    and "objid_cache_list hmp = ocp # rest" and "ocp_heap hmp ocp = Some ent"
  shows "objid_cache_obtain c hmp dip = Inr (bind_first hmp dip ocp ent)"
  using assms
  by (simp add: objid_cache_obtain_def Let_def tailq_defs bind_first_def split: option.splits)

lemma objid_cache_obtain_empty:
  assumes "\<not> objid_cache_count hmp < OBJID_CACHE_SIZE c" and "objid_cache_list hmp = []"
  shows "objid_cache_obtain c hmp dip = Inl Bad_pointer"
  using assms by (simp add: objid_cache_obtain_def tailq_defs)

text \<open>
  A draw from an entry with one id left ends in the panic of \<^verbatim>\<open>dfly_kfree\<close>; a draw
  from an entry with more returns the id and puts the entry at the tail of the queue.
\<close>

lemma objid_cache_take_eq:
  assumes "ocp_heap hmp ocp = Some ent" and "ocp \<in> set (objid_cache_list hmp)"
  shows "objid_cache_take c hmp dip ocp =
     (if oc_count ent = 1 then Inl Panic_dfly_kfree
      else
        Inr (oc_next_tid ent,
             hmp\<lparr>objid_cache_list := remove1 ocp (objid_cache_list hmp) @ [ocp],
                 ocp_heap := (ocp_heap hmp)(ocp \<mapsto>
                    ent\<lparr>oc_next_tid := oc_next_tid ent +
                           (if master_id hmp < 0 then 1 else word_of_int (HAMMER_MAX_MASTERS c)),
                        oc_count := oc_count ent - 1\<rparr>)\<rparr>))"
  using assms
  by (simp add: objid_cache_take_def Let_def tailq_defs dfly_kfree_def)

subsection \<open>The shape of the cache is kept\<close>

lemma length_remove1_int:
  assumes "a \<in> set q"
  shows "int (length (remove1 a q)) = int (length q) - 1"
proof -
  have "0 < length q" using assms by (rule length_pos_if_in_set)
  then have "int (length q - 1) = int (length q) - 1" by linarith
  then show ?thesis using assms by (simp only: length_remove1 if_True)
qed

lemma objid_wf_fresh:
  assumes "objid_wf q n h b ino" and "ino dip = None"
  shows "objid_wf (b # q) (n + 1)
           (h(b \<mapsto> \<lparr>oc_dip = Some dip, oc_next_tid = i, oc_count = k\<rparr>)) (Suc b)
           (ino(dip \<mapsto> b))"
proof -
  have nb: "b \<notin> set q" using assms(1) unfolding objid_wf_def by auto
  then have hb: "h b = None" using assms(1) unfolding objid_wf_def by auto
  have link: "\<And>d a. (ino d = Some a) = (\<exists>ent. h a = Some ent \<and> oc_dip ent = Some d)"
    using assms(1) unfolding objid_wf_def by blast
  have nd: "\<And>a ent. h a = Some ent \<Longrightarrow> oc_dip ent \<noteq> Some dip"
    using link [of dip] assms(2) by fastforce
  show ?thesis
    unfolding objid_wf_def
  proof (intro conjI allI)
    fix d a
    show "((ino(dip \<mapsto> b)) d = Some a) =
          (\<exists>ent. (h(b \<mapsto> \<lparr>oc_dip = Some dip, oc_next_tid = i, oc_count = k\<rparr>)) a = Some ent \<and>
                 oc_dip ent = Some d)"
      using hb nd link [of d a] assms(2) by auto
  qed (use assms(1) nb in \<open>auto simp: objid_wf_def less_Suc_eq\<close>)
qed

lemma objid_wf_evict:
  assumes "objid_wf q n h b ino" and "ino dip = None" and "h a = Some ent"
  shows "objid_wf q n (h(a \<mapsto> ent\<lparr>oc_dip := Some dip\<rparr>)) b
           ((case oc_dip ent of None \<Rightarrow> ino | Some d \<Rightarrow> ino(d := None))(dip \<mapsto> a))"
proof -
  have link: "\<And>d a. (ino d = Some a) = (\<exists>ent. h a = Some ent \<and> oc_dip ent = Some d)"
    using assms(1) unfolding objid_wf_def by blast
  have nd: "\<And>a ent. h a = Some ent \<Longrightarrow> oc_dip ent \<noteq> Some dip"
    using link [of dip] assms(2) by fastforce
  have aq: "a \<in> set q" using assms(1,3) unfolding objid_wf_def by auto
  show ?thesis
    unfolding objid_wf_def
  proof (intro conjI allI)
    fix d a'
    show "(((case oc_dip ent of None \<Rightarrow> ino | Some d \<Rightarrow> ino(d := None))(dip \<mapsto> a)) d = Some a') =
          (\<exists>e. (h(a \<mapsto> ent\<lparr>oc_dip := Some dip\<rparr>)) a' = Some e \<and> oc_dip e = Some d)"
      using nd link [of d a'] link [of d a] assms(2,3)
      by (cases "oc_dip ent") auto
  qed (use assms(1) aq in \<open>auto simp: objid_wf_def\<close>)
qed

lemma objid_wf_take_more:
  assumes "objid_wf q n h b ino" and "h a = Some ent"
  shows "objid_wf (remove1 a q @ [a]) n (h(a \<mapsto> ent\<lparr>oc_next_tid := x, oc_count := k\<rparr>)) b ino"
proof -
  have link: "\<And>d a. (ino d = Some a) = (\<exists>ent. h a = Some ent \<and> oc_dip ent = Some d)"
    using assms(1) unfolding objid_wf_def by blast
  have aq: "a \<in> set q" and dq: "distinct q" using assms unfolding objid_wf_def by auto
  show ?thesis
    unfolding objid_wf_def
  proof (intro conjI allI)
    fix d a'
    show "(ino d = Some a') =
          (\<exists>e. (h(a \<mapsto> ent\<lparr>oc_next_tid := x, oc_count := k\<rparr>)) a' = Some e \<and> oc_dip e = Some d)"
      using link [of d a'] assms(2) by auto
  next
    show "n = int (length (remove1 a q @ [a]))"
      using assms(1) aq by (simp add: objid_wf_def length_remove1_int)
  qed (use assms(1) aq dq in \<open>auto simp: objid_wf_def\<close>)
qed

lemma objid_wf_clear:
  assumes "objid_wf q n h b ino" and "ino dip = Some a" and "h a = Some ent"
  shows "objid_wf (a # remove1 a q) n (h(a \<mapsto> ent\<lparr>oc_dip := None\<rparr>)) b (ino(dip := None))"
proof -
  have link: "\<And>d a. (ino d = Some a) = (\<exists>ent. h a = Some ent \<and> oc_dip ent = Some d)"
    using assms(1) unfolding objid_wf_def by blast
  have aq: "a \<in> set q" and dq: "distinct q" using assms unfolding objid_wf_def by auto
  show ?thesis
    unfolding objid_wf_def
  proof (intro conjI allI)
    fix d a'
    show "((ino(dip := None)) d = Some a') =
          (\<exists>e. (h(a \<mapsto> ent\<lparr>oc_dip := None\<rparr>)) a' = Some e \<and> oc_dip e = Some d)"
      using link [of d a'] link [of dip a'] link [of d a] assms(2,3) by auto
  next
    show "n = int (length (a # remove1 a q))"
      using assms(1) aq by (simp add: objid_wf_def length_remove1_int)
  qed (use assms(1) aq dq in \<open>auto simp: objid_wf_def\<close>)
qed

text \<open>What the shape says about a pointer, and the functions one by one.\<close>

lemma objid_inv_bound:
  assumes "objid_inv hmp" and "inode_objid_cache hmp d = Some a"
  shows "\<exists>ent. ocp_heap hmp a = Some ent \<and> oc_dip ent = Some d"
    and "a \<in> set (objid_cache_list hmp)"
proof -
  from assms show e: "\<exists>ent. ocp_heap hmp a = Some ent \<and> oc_dip ent = Some d"
    unfolding objid_inv_def objid_wf_def by blast
  then have "ocp_heap hmp a \<noteq> None" by auto
  with assms(1) show "a \<in> set (objid_cache_list hmp)"
    unfolding objid_inv_def objid_wf_def by blast
qed

lemma objid_inv_listed:
  assumes "objid_inv hmp" and "a \<in> set (objid_cache_list hmp)"
  shows "\<exists>ent. ocp_heap hmp a = Some ent"
  using assms unfolding objid_inv_def objid_wf_def by auto

lemma objid_inv_bind_fresh:
  assumes "objid_inv hmp" and "inode_objid_cache hmp dip = None"
  shows "objid_inv (bind_fresh c hmp dip)"
  using objid_wf_fresh [OF assms(1) [unfolded objid_inv_def] assms(2)]
  by (simp add: objid_inv_def bind_fresh_def)

lemma objid_inv_bind_first:
  assumes "objid_inv hmp" and "inode_objid_cache hmp dip = None"
    and "ocp_heap hmp ocp = Some ent"
  shows "objid_inv (bind_first hmp dip ocp ent)"
  using objid_wf_evict [OF assms(1) [unfolded objid_inv_def] assms(2,3)]
  by (simp add: objid_inv_def bind_first_def)

lemma objid_inv_take:
  assumes "objid_inv hmp" and "inode_objid_cache hmp dip = Some ocp"
    and "objid_cache_take c hmp dip ocp = Inr (tid, hmp')"
  shows "objid_inv hmp'"
proof -
  from objid_inv_bound [OF assms(1,2)] obtain ent where
    e: "ocp_heap hmp ocp = Some ent" and q: "ocp \<in> set (objid_cache_list hmp)" by blast
  note wf = assms(1) [unfolded objid_inv_def]
  from assms(3) have "hmp' = hmp\<lparr>objid_cache_list := remove1 ocp (objid_cache_list hmp) @ [ocp],
                ocp_heap := (ocp_heap hmp)(ocp \<mapsto>
                   ent\<lparr>oc_next_tid := oc_next_tid ent +
                          (if master_id hmp < 0 then 1 else word_of_int (HAMMER_MAX_MASTERS c)),
                       oc_count := oc_count ent - 1\<rparr>)\<rparr>"
    by (auto simp: objid_cache_take_eq [OF e q] split: if_splits)
  then show ?thesis
    using objid_wf_take_more [OF wf e] by (simp add: objid_inv_def)
qed

lemma hammer_alloc_objid_bound:
  "inode_objid_cache hmp dip = Some ocp \<Longrightarrow>
   hammer_alloc_objid c hmp dip = objid_cache_take c hmp dip ocp"
  by (simp add: hammer_alloc_objid_def objid_cache_lookup_bound)

lemma bind_fresh_cache [simp]:
  "inode_objid_cache (bind_fresh c hmp dip) dip = Some (ocp_brk hmp)"
  by (simp add: bind_fresh_def)

lemma bind_first_cache [simp]:
  "inode_objid_cache (bind_first hmp dip ocp ent) dip = Some ocp"
  by (simp add: bind_first_def)

lemma hammer_alloc_objid_fresh:
  assumes "inode_objid_cache hmp dip = None" and "objid_cache_count hmp < OBJID_CACHE_SIZE c"
  shows "hammer_alloc_objid c hmp dip =
     (if TID_LIMIT \<le> alloc_tid_id c hmp then Inl Panic_out_of_TIDs
      else objid_cache_take c (bind_fresh c hmp dip) dip (ocp_brk hmp))"
  using assms
  by (simp add: hammer_alloc_objid_def objid_cache_lookup.simps [of c hmp]
        objid_cache_obtain_fresh objid_cache_lookup_bound)

lemma hammer_alloc_objid_evict:
  assumes "inode_objid_cache hmp dip = None" and "\<not> objid_cache_count hmp < OBJID_CACHE_SIZE c"
    and "objid_cache_list hmp = ocp # rest" and "ocp_heap hmp ocp = Some ent"
  shows "hammer_alloc_objid c hmp dip = objid_cache_take c (bind_first hmp dip ocp ent) dip ocp"
  using assms
  by (simp add: hammer_alloc_objid_def objid_cache_lookup.simps [of c hmp]
        objid_cache_obtain_evict objid_cache_lookup_bound)

lemma hammer_alloc_objid_empty:
  assumes "inode_objid_cache hmp dip = None" and "\<not> objid_cache_count hmp < OBJID_CACHE_SIZE c"
    and "objid_cache_list hmp = []"
  shows "hammer_alloc_objid c hmp dip = Inl Bad_pointer"
  using assms
  by (simp add: hammer_alloc_objid_def objid_cache_lookup.simps [of c hmp]
        objid_cache_obtain_empty)

lemma objid_inv_alloc:
  assumes "objid_inv hmp" and "hammer_alloc_objid c hmp dip = Inr (tid, hmp')"
  shows "objid_inv hmp'"
proof (cases "inode_objid_cache hmp dip")
  case (Some ocp)
  with assms show ?thesis
    by (auto simp: hammer_alloc_objid_bound intro: objid_inv_take)
next
  case None
  show ?thesis
  proof (cases "objid_cache_count hmp < OBJID_CACHE_SIZE c")
    case True
    with None assms(2) have
      t: "objid_cache_take c (bind_fresh c hmp dip) dip (ocp_brk hmp) = Inr (tid, hmp')"
      by (simp add: hammer_alloc_objid_fresh split: if_splits)
    show ?thesis
      by (rule objid_inv_take [OF objid_inv_bind_fresh [OF assms(1) None] bind_fresh_cache t])
  next
    case False
    show ?thesis
    proof (cases "objid_cache_list hmp")
      case Nil
      with None False assms(2) show ?thesis by (simp add: hammer_alloc_objid_empty)
    next
      case (Cons ocp rest)
      then have "ocp \<in> set (objid_cache_list hmp)" by simp
      from objid_inv_listed [OF assms(1) this] obtain ent where e: "ocp_heap hmp ocp = Some ent" ..
      from None False Cons e assms(2) have
        t: "objid_cache_take c (bind_first hmp dip ocp ent) dip ocp = Inr (tid, hmp')"
        by (simp add: hammer_alloc_objid_evict)
      show ?thesis
        by (rule objid_inv_take [OF objid_inv_bind_first [OF assms(1) None e] bind_first_cache t])
    qed
  qed
qed

lemma hammer_clear_objid_eq:
  assumes "inode_objid_cache hmp dip = Some ocp" and "ocp_heap hmp ocp = Some ent"
    and "ocp \<in> set (objid_cache_list hmp)"
  shows "hammer_clear_objid hmp dip =
     Inr (hmp\<lparr>inode_objid_cache := (inode_objid_cache hmp)(dip := None),
              ocp_heap := (ocp_heap hmp)(ocp \<mapsto> ent\<lparr>oc_dip := None\<rparr>),
              objid_cache_list := ocp # remove1 ocp (objid_cache_list hmp)\<rparr>)"
  using assms by (simp add: hammer_clear_objid_def tailq_defs)

lemma objid_inv_clear:
  assumes "objid_inv hmp"
  shows "\<exists>hmp'. hammer_clear_objid hmp dip = Inr hmp' \<and> objid_inv hmp'"
proof (cases "inode_objid_cache hmp dip")
  case None
  with assms show ?thesis by (simp add: hammer_clear_objid_def)
next
  case (Some ocp)
  from objid_inv_bound [OF assms Some] obtain ent where
    e: "ocp_heap hmp ocp = Some ent" and q: "ocp \<in> set (objid_cache_list hmp)" by blast
  show ?thesis
    using objid_wf_clear [OF assms [unfolded objid_inv_def] Some e]
    by (simp add: hammer_clear_objid_eq [OF Some e q] objid_inv_def)
qed

lemma objid_inv_mount0: "objid_inv (mount0 mid tid)"
  by (simp add: objid_inv_def objid_wf_def mount0_def)

lemma objid_inv_run:
  assumes "objid_inv hmp" and "objid_run c hmp ops = Inr (tids, hmp')"
  shows "objid_inv hmp'"
  using assms
proof (induction ops arbitrary: hmp tids)
  case Nil
  then show ?case by simp
next
  case (Cons op ops)
  show ?case
  proof (cases op)
    case (Alloc dip)
    with Cons.prems(2) obtain tid hmp1 ts where
      a: "hammer_alloc_objid c hmp dip = Inr (tid, hmp1)"
      and r: "objid_run c hmp1 ops = Inr (ts, hmp')"
      by (auto split: sum.splits prod.splits)
    from Cons.IH [OF objid_inv_alloc [OF Cons.prems(1) a] r] show ?thesis .
  next
    case (Clear dip)
    from objid_inv_clear [OF Cons.prems(1), of dip] obtain hmp1 where
      cl: "hammer_clear_objid hmp dip = Inr hmp1" and i: "objid_inv hmp1" by blast
    with Clear Cons.prems(2) have "objid_run c hmp1 ops = Inr (tids, hmp')" by simp
    from Cons.IH [OF i this] show ?thesis .
  qed
qed


text \<open>
  \<^verbatim>\<open>hammer_destroy_objid_cache\<close> returns at once when the queue is empty.  When the
  queue has a first entry, it ends in the panic of \<^verbatim>\<open>dfly_kfree\<close> on that entry.
\<close>

lemma hammer_destroy_objid_cache_empty:
  "objid_cache_list hmp = [] \<Longrightarrow> hammer_destroy_objid_cache hmp = Inr hmp"
  by (simp add: hammer_destroy_objid_cache.simps [of hmp] TAILQ_FIRST_def)

lemma hammer_destroy_objid_cache_panics:
  assumes "objid_cache_list hmp = ocp # rest" and "ocp_heap hmp ocp = Some ent"
  shows "hammer_destroy_objid_cache hmp = Inl Panic_dfly_kfree"
  using assms
  by (simp add: hammer_destroy_objid_cache.simps [of hmp] TAILQ_FIRST_def Let_def dfly_kfree_def)

text \<open>
  The three ways in which a call of \<^verbatim>\<open>hammer_alloc_objid\<close> that returns finds its
  entry, as a case rule.
\<close>

lemma hammer_alloc_objid_cases [consumes 2, case_names bound fresh evict]:
  assumes "objid_inv hmp" and "hammer_alloc_objid c hmp dip = Inr (tid, hmp')"
  obtains
    a where "inode_objid_cache hmp dip = Some a"
      and "objid_cache_take c hmp dip a = Inr (tid, hmp')"
  | "inode_objid_cache hmp dip = None" and "objid_cache_count hmp < OBJID_CACHE_SIZE c"
      and "\<not> TID_LIMIT \<le> alloc_tid_id c hmp"
      and "objid_cache_take c (bind_fresh c hmp dip) dip (ocp_brk hmp) = Inr (tid, hmp')"
  | a rest ent where "inode_objid_cache hmp dip = None"
      and "\<not> objid_cache_count hmp < OBJID_CACHE_SIZE c"
      and "objid_cache_list hmp = a # rest" and "ocp_heap hmp a = Some ent"
      and "objid_cache_take c (bind_first hmp dip a ent) dip a = Inr (tid, hmp')"
proof (cases "inode_objid_cache hmp dip")
  case (Some a)
  with assms(2) that(1) show ?thesis by (simp add: hammer_alloc_objid_bound)
next
  case None
  show ?thesis
  proof (cases "objid_cache_count hmp < OBJID_CACHE_SIZE c")
    case True
    with None assms(2) that(2) show ?thesis
      by (simp add: hammer_alloc_objid_fresh split: if_splits)
  next
    case False
    show ?thesis
    proof (cases "objid_cache_list hmp")
      case Nil
      with None False assms(2) show ?thesis by (simp add: hammer_alloc_objid_empty)
    next
      case (Cons a rest)
      then have "a \<in> set (objid_cache_list hmp)" by simp
      from objid_inv_listed [OF assms(1) this] obtain ent where e: "ocp_heap hmp a = Some ent" ..
      with None False Cons assms(2) that(3) show ?thesis
        by (simp add: hammer_alloc_objid_evict)
    qed
  qed
qed

text \<open>What a draw that returns has found and what it leaves behind.\<close>

lemma objid_cache_take_result [consumes 3, case_names more]:
  assumes "objid_inv hmp" and "inode_objid_cache hmp dip = Some ocp"
    and "objid_cache_take c hmp dip ocp = Inr (tid, hmp')"
  obtains
    ent where "ocp_heap hmp ocp = Some ent" and "oc_dip ent = Some dip"
      and "ocp \<in> set (objid_cache_list hmp)" and "oc_count ent \<noteq> 1"
      and "tid = oc_next_tid ent"
      and "hmp' = hmp\<lparr>objid_cache_list := remove1 ocp (objid_cache_list hmp) @ [ocp],
              ocp_heap := (ocp_heap hmp)(ocp \<mapsto>
                 ent\<lparr>oc_next_tid := oc_next_tid ent +
                        (if master_id hmp < 0 then 1 else word_of_int (HAMMER_MAX_MASTERS c)),
                     oc_count := oc_count ent - 1\<rparr>)\<rparr>"
proof -
  from objid_inv_bound [OF assms(1,2)] obtain ent where
    e: "ocp_heap hmp ocp = Some ent" and d: "oc_dip ent = Some dip"
    and q: "ocp \<in> set (objid_cache_list hmp)" by blast
  from assms(3) e d q that show ?thesis
    by (auto simp: objid_cache_take_eq [OF e q] split: if_splits)
qed

subsection \<open>The counter and the queue\<close>

text \<open>
  C10: in every state that a series of \<^verbatim>\<open>hammer_alloc_objid\<close> and
  \<^verbatim>\<open>hammer_clear_objid\<close> calls reaches from a mount with an empty pool,
  \<open>objid_cache_count\<close> is the number of entries in \<open>objid_cache_list\<close>, and one more
  call of either function that returns keeps it so.  \<^verbatim>\<open>hammer_destroy_objid_cache\<close>
  does not touch the counter, but it does not get to free every entry either: with an
  empty queue it returns at once, and with entries in the queue it unlinks the first,
  unbinds its directory and ends in the panic of \<^verbatim>\<open>dfly_kfree\<close>.
\<close>

theorem C10_count_and_list:
  assumes "objid_run c (mount0 mid tid) ops = Inr (tids, hmp)"
  shows "objid_cache_count hmp = int (length (objid_cache_list hmp)) \<and>
         (\<forall>dip t hmp1. hammer_alloc_objid c hmp dip = Inr (t, hmp1) \<longrightarrow>
            objid_cache_count hmp1 = int (length (objid_cache_list hmp1))) \<and>
         (\<forall>dip. \<exists>hmp1. hammer_clear_objid hmp dip = Inr hmp1 \<and>
            objid_cache_count hmp1 = int (length (objid_cache_list hmp1))) \<and>
         hammer_destroy_objid_cache hmp =
           (if objid_cache_list hmp = [] then Inr hmp else Inl Panic_dfly_kfree)"
proof -
  have inv: "objid_inv hmp"
    by (rule objid_inv_run [OF objid_inv_mount0 assms])
  have cnt: "objid_cache_count h = int (length (objid_cache_list h))" if "objid_inv h" for h
    using that by (simp add: objid_inv_def objid_wf_def)
  have d: "hammer_destroy_objid_cache hmp =
           (if objid_cache_list hmp = [] then Inr hmp else Inl Panic_dfly_kfree)"
  proof (cases "objid_cache_list hmp")
    case Nil
    then show ?thesis by (simp add: hammer_destroy_objid_cache_empty)
  next
    case (Cons ocp rest)
    then have "ocp \<in> set (objid_cache_list hmp)" by simp
    from objid_inv_listed [OF inv this] obtain ent where "ocp_heap hmp ocp = Some ent" ..
    from hammer_destroy_objid_cache_panics [OF Cons this] Cons show ?thesis by simp
  qed
  show ?thesis
  proof (intro conjI allI impI)
    show "objid_cache_count hmp = int (length (objid_cache_list hmp))" by (rule cnt [OF inv])
  next
    fix dip t hmp1 assume "hammer_alloc_objid c hmp dip = Inr (t, hmp1)"
    from cnt [OF objid_inv_alloc [OF inv this]]
    show "objid_cache_count hmp1 = int (length (objid_cache_list hmp1))" .
  next
    fix dip
    from objid_inv_clear [OF inv, of dip] cnt
    show "\<exists>hmp1. hammer_clear_objid hmp dip = Inr hmp1 \<and>
            objid_cache_count hmp1 = int (length (objid_cache_list hmp1))" by blast
  next
    show "hammer_destroy_objid_cache hmp =
           (if objid_cache_list hmp = [] then Inr hmp else Inl Panic_dfly_kfree)" by (rule d)
  qed
qed

theorem C10_count_and_list_witness:
  "(case objid_run (consts0 2 4) (mount0 (- 1) 100) [Alloc 0, Alloc 1, Clear 0] of
      Inl e \<Rightarrow> False
    | Inr (ids, hmp) \<Rightarrow>
        objid_cache_count hmp = 2 \<and> objid_cache_list hmp = [0, 1] \<and>
        hammer_destroy_objid_cache hmp = Inl Panic_dfly_kfree) \<and>
   hammer_destroy_objid_cache (mount0 (- 1) 100) = Inr (mount0 (- 1) 100)"
proof -
  define S where "S = \<lparr>master_id = - 1, next_tid = 110, objid_cache_list = [0, 1],
         objid_cache_count = 2,
         ocp_heap = (\<lambda>_. None)(1 \<mapsto> \<lparr>oc_dip = Some 1, oc_next_tid = 107, oc_count = 3\<rparr>,
                               0 \<mapsto> \<lparr>oc_dip = None, oc_next_tid = 102, oc_count = 3\<rparr>),
         ocp_brk = 2, inode_objid_cache = (\<lambda>_. None)(1 \<mapsto> 1)\<rparr>"
  have run: "objid_run (consts0 2 4) (mount0 (- 1) 100) [Alloc 0, Alloc 1, Clear 0] =
               Inr ([101, 106], S)"
    by (simp add: objid_eval S_def)
  have run0: "objid_run (consts0 2 4) (mount0 (- 1) 100) [] = Inr ([], mount0 (- 1) 100)"
    by simp
  from C10_count_and_list [OF run]
  have "hammer_destroy_objid_cache S = Inl Panic_dfly_kfree"
    by (simp add: S_def)
  moreover from C10_count_and_list [OF run0]
  have "hammer_destroy_objid_cache (mount0 (- 1) 100) = Inr (mount0 (- 1) 100)"
    by (simp add: mount0_def)
  ultimately show ?thesis
    unfolding run by (simp add: S_def)
qed

subsection \<open>The order of the queue\<close>

text \<open>
  C5: the pool is kept in the order of use.  Every call of \<^verbatim>\<open>hammer_alloc_objid\<close> that
  returns leaves the entry it has drawn from at the tail of the queue, which is thus
  the most recently used end, the front in the words of the specification; this holds
  for a newly created entry as for any other.  When the pool is full, a directory
  without an entry is given the entry at the head of the queue, the opposite, least
  recently used end.  \<^verbatim>\<open>hammer_clear_objid\<close> unbinds the entry of the directory and
  moves it to the head, so that it is the next entry to be taken over by a directory
  that finds the pool full.  A call of \<^verbatim>\<open>hammer_alloc_objid\<close> returns whenever the TID
  allocator does and the entry has more than one id left.
\<close>

theorem C5_queue_discipline:
  assumes "objid_inv hmp"
  shows "(inode_objid_cache hmp dip = None \<and> objid_cache_count hmp < OBJID_CACHE_SIZE c \<and>
          \<not> TID_LIMIT \<le> alloc_tid_id c hmp \<and> OBJID_CACHE_BULK c \<noteq> 1 \<longrightarrow>
            (\<exists>hmp1. hammer_alloc_objid c hmp dip = Inr (alloc_tid_id c hmp, hmp1) \<and>
               ocp_brk hmp \<notin> set (objid_cache_list hmp) \<and>
               objid_cache_list hmp1 = objid_cache_list hmp @ [ocp_brk hmp] \<and>
               inode_objid_cache hmp1 dip = Some (ocp_brk hmp))) \<and>
         (inode_objid_cache hmp dip = None \<and> \<not> objid_cache_count hmp < OBJID_CACHE_SIZE c \<and>
          objid_cache_list hmp = a # rest \<and> ocp_heap hmp a = Some ent \<and> oc_count ent \<noteq> 1 \<longrightarrow>
            (\<exists>hmp1. hammer_alloc_objid c hmp dip = Inr (oc_next_tid ent, hmp1) \<and>
               objid_cache_list hmp1 = rest @ [a] \<and>
               inode_objid_cache hmp1 dip = Some a)) \<and>
         (hammer_alloc_objid c hmp dip = Inr (tid, hmp2) \<longrightarrow>
            (\<exists>b. inode_objid_cache hmp2 dip = Some b \<and>
               objid_cache_list hmp2 = remove1 b (objid_cache_list hmp) @ [b])) \<and>
         (inode_objid_cache hmp dip = Some a \<longrightarrow>
            (\<exists>hmp3. hammer_clear_objid hmp dip = Inr hmp3 \<and>
               objid_cache_list hmp3 = a # remove1 a (objid_cache_list hmp) \<and>
               inode_objid_cache hmp3 dip = None \<and>
               (\<forall>dip' ent'. inode_objid_cache hmp3 dip' = None \<and>
                  \<not> objid_cache_count hmp3 < OBJID_CACHE_SIZE c \<and>
                  ocp_heap hmp a = Some ent' \<and> oc_count ent' \<noteq> 1 \<longrightarrow>
                  (\<exists>hmp4. hammer_alloc_objid c hmp3 dip' = Inr (oc_next_tid ent', hmp4) \<and>
                     inode_objid_cache hmp4 dip' = Some a))))"
  (is "?P1 \<and> ?P2 \<and> ?P3 \<and> ?P4")
proof -
  have nb: "ocp_brk hmp \<notin> set (objid_cache_list hmp)"
    using assms by (auto simp: objid_inv_def objid_wf_def)
  have evict: "\<exists>h1. hammer_alloc_objid c h d = Inr (oc_next_tid e, h1) \<and>
               objid_cache_list h1 = r @ [x] \<and> inode_objid_cache h1 d = Some x"
    if n: "inode_objid_cache h d = None" and ge: "\<not> objid_cache_count h < OBJID_CACHE_SIZE c"
      and l: "objid_cache_list h = x # r" and e: "ocp_heap h x = Some e"
      and c1: "oc_count e \<noteq> 1" for h d x r e
  proof -
    define hB where "hB = bind_first h d x e"
    have eB: "ocp_heap hB x = Some (e\<lparr>oc_dip := Some d\<rparr>)"
      and qB: "x \<in> set (objid_cache_list hB)"
      and lB: "objid_cache_list hB = x # r"
      and iB: "inode_objid_cache hB d = Some x"
      using l by (simp_all add: hB_def bind_first_def)
    have "hammer_alloc_objid c h d = objid_cache_take c hB d x"
      unfolding hB_def by (rule hammer_alloc_objid_evict [OF n ge l e])
    also note objid_cache_take_eq [OF eB qB]
    finally show ?thesis using c1 lB iB by simp
  qed
  have P1: ?P1
  proof (rule impI)
    assume a: "inode_objid_cache hmp dip = None \<and> objid_cache_count hmp < OBJID_CACHE_SIZE c \<and>
          \<not> TID_LIMIT \<le> alloc_tid_id c hmp \<and> OBJID_CACHE_BULK c \<noteq> 1"
    then have n: "inode_objid_cache hmp dip = None"
      and lt: "objid_cache_count hmp < OBJID_CACHE_SIZE c"
      and nl: "\<not> TID_LIMIT \<le> alloc_tid_id c hmp" and b1: "OBJID_CACHE_BULK c \<noteq> 1"
      by simp_all
    define hB where "hB = bind_fresh c hmp dip"
    have eB: "ocp_heap hB (ocp_brk hmp) =
             Some \<lparr>oc_dip = Some dip, oc_next_tid = alloc_tid_id c hmp,
                   oc_count = OBJID_CACHE_BULK c\<rparr>"
      and qB: "ocp_brk hmp \<in> set (objid_cache_list hB)"
      and lB: "objid_cache_list hB = ocp_brk hmp # objid_cache_list hmp"
      and iB: "inode_objid_cache hB dip = Some (ocp_brk hmp)"
      by (simp_all add: hB_def bind_fresh_def)
    have "hammer_alloc_objid c hmp dip = objid_cache_take c hB dip (ocp_brk hmp)"
      using nl by (simp add: hammer_alloc_objid_fresh [OF n lt] hB_def)
    also note objid_cache_take_eq [OF eB qB]
    finally show "\<exists>hmp1. hammer_alloc_objid c hmp dip = Inr (alloc_tid_id c hmp, hmp1) \<and>
               ocp_brk hmp \<notin> set (objid_cache_list hmp) \<and>
               objid_cache_list hmp1 = objid_cache_list hmp @ [ocp_brk hmp] \<and>
               inode_objid_cache hmp1 dip = Some (ocp_brk hmp)"
      using b1 lB iB nb by simp
  qed
  have P2: ?P2 using evict by blast
  have P3: ?P3
  proof (rule impI)
    assume al: "hammer_alloc_objid c hmp dip = Inr (tid, hmp2)"
    from assms al show "\<exists>b. inode_objid_cache hmp2 dip = Some b \<and>
               objid_cache_list hmp2 = remove1 b (objid_cache_list hmp) @ [b]"
    proof (cases rule: hammer_alloc_objid_cases)
      case (bound b)
      from assms bound show ?thesis
        using bound(1) by (cases rule: objid_cache_take_result) auto
    next
      case fresh
      from objid_inv_bind_fresh [OF assms fresh(1)] bind_fresh_cache fresh(4) show ?thesis
        using nb by (cases rule: objid_cache_take_result) (auto simp: bind_fresh_def remove1_idem)
    next
      case (evict b rest ent)
      from objid_inv_bind_first [OF assms evict(1,4)] bind_first_cache evict(5) show ?thesis
        using evict(3) by (cases rule: objid_cache_take_result) (auto simp: bind_first_def)
    qed
  qed
  have P4: ?P4
  proof (rule impI)
    assume b: "inode_objid_cache hmp dip = Some a"
    from objid_inv_bound [OF assms b] obtain ent where
      e: "ocp_heap hmp a = Some ent" and q: "a \<in> set (objid_cache_list hmp)" by blast
    define hmp3 where "hmp3 = hmp\<lparr>inode_objid_cache := (inode_objid_cache hmp)(dip := None),
              ocp_heap := (ocp_heap hmp)(a \<mapsto> ent\<lparr>oc_dip := None\<rparr>),
              objid_cache_list := a # remove1 a (objid_cache_list hmp)\<rparr>"
    have cl: "hammer_clear_objid hmp dip = Inr hmp3"
      by (simp add: hammer_clear_objid_eq [OF b e q] hmp3_def)
    have l3: "objid_cache_list hmp3 = a # remove1 a (objid_cache_list hmp)"
      and e3: "ocp_heap hmp3 a = Some (ent\<lparr>oc_dip := None\<rparr>)"
      and i3: "inode_objid_cache hmp3 dip = None"
      by (simp_all add: hmp3_def)
    have nx: "\<exists>hmp4. hammer_alloc_objid c hmp3 dip' = Inr (oc_next_tid ent', hmp4) \<and>
                     inode_objid_cache hmp4 dip' = Some a"
      if t: "inode_objid_cache hmp3 dip' = None \<and>
             \<not> objid_cache_count hmp3 < OBJID_CACHE_SIZE c \<and>
             ocp_heap hmp a = Some ent' \<and> oc_count ent' \<noteq> 1" for dip' ent'
    proof -
      from t e have ee: "ent' = ent" by simp
      from t have n: "inode_objid_cache hmp3 dip' = None"
        and ge: "\<not> objid_cache_count hmp3 < OBJID_CACHE_SIZE c"
        and c1: "oc_count (ent\<lparr>oc_dip := None\<rparr>) \<noteq> 1" by (simp_all add: ee)
      from evict [OF n ge l3 e3 c1] show ?thesis by (auto simp: ee)
    qed
    show "\<exists>hmp3. hammer_clear_objid hmp dip = Inr hmp3 \<and>
               objid_cache_list hmp3 = a # remove1 a (objid_cache_list hmp) \<and>
               inode_objid_cache hmp3 dip = None \<and>
               (\<forall>dip' ent'. inode_objid_cache hmp3 dip' = None \<and>
                  \<not> objid_cache_count hmp3 < OBJID_CACHE_SIZE c \<and>
                  ocp_heap hmp a = Some ent' \<and> oc_count ent' \<noteq> 1 \<longrightarrow>
                  (\<exists>hmp4. hammer_alloc_objid c hmp3 dip' = Inr (oc_next_tid ent', hmp4) \<and>
                     inode_objid_cache hmp4 dip' = Some a))"
      using cl l3 i3 nx by (intro exI [of _ hmp3]) blast
  qed
  from P1 P2 P3 P4 show ?thesis by (intro conjI)
qed

theorem C5_queue_discipline_witness:
  "(case objid_run (consts0 2 4) (mount0 (- 1) 100) [Alloc 0, Alloc 1] of
      Inl e \<Rightarrow> False
    | Inr (ids, hmp) \<Rightarrow>
        objid_cache_list hmp = [0, 1] \<and>
        (case hammer_clear_objid hmp 1 of
           Inl e \<Rightarrow> False
         | Inr hmp3 \<Rightarrow>
             objid_cache_list hmp3 = [1, 0] \<and>
             (case hammer_alloc_objid (consts0 2 4) hmp3 2 of
                Inl e \<Rightarrow> False
              | Inr (tid, hmp4) \<Rightarrow>
                  tid = 107 \<and> inode_objid_cache hmp4 2 = Some 1 \<and>
                  objid_cache_list hmp4 = [0, 1])))"
proof -
  define S where "S = \<lparr>master_id = - 1, next_tid = 110, objid_cache_list = [0, 1],
         objid_cache_count = 2,
         ocp_heap = (\<lambda>_. None)(0 \<mapsto> \<lparr>oc_dip = Some 0, oc_next_tid = 102, oc_count = 3\<rparr>,
                               1 \<mapsto> \<lparr>oc_dip = Some 1, oc_next_tid = 107, oc_count = 3\<rparr>),
         ocp_brk = 2, inode_objid_cache = (\<lambda>_. None)(0 \<mapsto> 0, 1 \<mapsto> 1)\<rparr>"
  have run: "objid_run (consts0 2 4) (mount0 (- 1) 100) [Alloc 0, Alloc 1] = Inr ([101, 106], S)"
    by (simp add: objid_eval S_def)
  have inv: "objid_inv S"
    by (rule objid_inv_run [OF objid_inv_mount0 run])
  have b: "inode_objid_cache S 1 = Some 1" by (simp add: S_def)
  from C5_queue_discipline [OF inv, THEN conjunct2, THEN conjunct2, THEN conjunct2,
      rule_format, OF b, of "consts0 2 4"]
  obtain hmp3 where cl: "hammer_clear_objid S 1 = Inr hmp3"
    and l3: "objid_cache_list hmp3 = 1 # remove1 1 (objid_cache_list S)"
    and nx: "\<And>dip' ent'. inode_objid_cache hmp3 dip' = None \<and>
                  \<not> objid_cache_count hmp3 < OBJID_CACHE_SIZE (consts0 2 4) \<and>
                  ocp_heap S 1 = Some ent' \<and> oc_count ent' \<noteq> 1 \<Longrightarrow>
                  \<exists>hmp4. hammer_alloc_objid (consts0 2 4) hmp3 dip' = Inr (oc_next_tid ent', hmp4) \<and>
                     inode_objid_cache hmp4 dip' = Some 1"
    by blast
  have h3: "hmp3 = S\<lparr>inode_objid_cache := (inode_objid_cache S)(1 := None),
              ocp_heap := (ocp_heap S)(1 \<mapsto> \<lparr>oc_dip = None, oc_next_tid = 107, oc_count = 3\<rparr>),
              objid_cache_list := [1, 0]\<rparr>"
    using cl by (simp add: hammer_clear_objid_def tailq_defs S_def)
  have "inode_objid_cache hmp3 2 = None \<and>
        \<not> objid_cache_count hmp3 < OBJID_CACHE_SIZE (consts0 2 4) \<and>
        ocp_heap S 1 = Some \<lparr>oc_dip = Some 1, oc_next_tid = 107, oc_count = 3\<rparr> \<and>
        oc_count \<lparr>oc_dip = Some 1, oc_next_tid = 107, oc_count = 3\<rparr> \<noteq> 1"
    by (simp add: h3 S_def consts0_def)
  from nx [OF this] obtain hmp4 where
    al: "hammer_alloc_objid (consts0 2 4) hmp3 2 = Inr (107, hmp4)"
    and i4: "inode_objid_cache hmp4 2 = Some 1" by auto
  from inv cl have inv3: "objid_inv hmp3"
    using objid_inv_clear [OF inv, of 1] by simp
  from C5_queue_discipline [OF inv3, THEN conjunct2, THEN conjunct2, THEN conjunct1,
      rule_format, OF al] i4
  have "objid_cache_list hmp4 = remove1 1 (objid_cache_list hmp3) @ [1]" by auto
  with al i4 cl l3 show ?thesis
    unfolding run by (simp add: S_def)
qed

subsection \<open>Entries that run out\<close>

lemma upt_Suc_map: "map f [0..<Suc n] = f 0 # map (\<lambda>i. f (Suc i)) [0..<n]"
proof -
  have "[0..<Suc n] = 0 # map Suc [0..<n]"
    by (simp add: upt_conv_Cons map_Suc_upt del: upt_Suc)
  then show ?thesis by (simp add: comp_def del: upt_Suc)
qed

lemma objid_run_snoc_alloc:
  "objid_run c hmp (ops @ [Alloc dip]) =
     (case objid_run c hmp ops of
        Inl e \<Rightarrow> Inl e
      | Inr (ids, hmp1) \<Rightarrow>
          (case hammer_alloc_objid c hmp1 dip of
             Inl e \<Rightarrow> Inl e
           | Inr (tid, hmp2) \<Rightarrow> Inr (ids @ [tid], hmp2)))"
  by (induction c hmp ops rule: objid_run.induct) (auto split: sum.splits prod.splits)

text \<open>
  A directory that draws from its entry until one id is left receives ids that are one
  stride apart; its next call ends in the panic of \<^verbatim>\<open>dfly_kfree\<close>.
\<close>

lemma drain_entry:
  assumes "objid_inv hmp" and "inode_objid_cache hmp dip = Some a"
    and "ocp_heap hmp a = Some ent" and "oc_count ent = int (Suc k)"
  shows "\<exists>hmp1. objid_run c hmp (replicate k (Alloc dip)) =
           Inr (map (\<lambda>i. oc_next_tid ent + of_nat i *
                     (if master_id hmp < 0 then 1 else word_of_int (HAMMER_MAX_MASTERS c)))
                  [0..<k], hmp1) \<and>
         hammer_alloc_objid c hmp1 dip = Inl Panic_dfly_kfree"
  using assms
proof (induction k arbitrary: hmp ent)
  case 0
  from objid_inv_bound(2) [OF "0.prems"(1,2)] have q: "a \<in> set (objid_cache_list hmp)" .
  from "0.prems"(4) have "oc_count ent = 1" by simp
  then have "hammer_alloc_objid c hmp dip = Inl Panic_dfly_kfree"
    by (simp add: hammer_alloc_objid_bound [OF "0.prems"(2)]
          objid_cache_take_eq [OF "0.prems"(3) q])
  then show ?case by simp
next
  case (Suc k)
  let ?st = "if master_id hmp < 0 then 1 else word_of_int (HAMMER_MAX_MASTERS c) :: 64 word"
  from objid_inv_bound(2) [OF Suc.prems(1,2)] have q: "a \<in> set (objid_cache_list hmp)" .
  from Suc.prems(4) have n1: "oc_count ent \<noteq> 1" by simp
  define ent1 where "ent1 = ent\<lparr>oc_next_tid := oc_next_tid ent + ?st,
                                oc_count := oc_count ent - 1\<rparr>"
  define hmp1 where "hmp1 = hmp\<lparr>objid_cache_list := remove1 a (objid_cache_list hmp) @ [a],
              ocp_heap := (ocp_heap hmp)(a \<mapsto> ent1)\<rparr>"
  have al: "hammer_alloc_objid c hmp dip = Inr (oc_next_tid ent, hmp1)"
    using n1 by (simp add: hammer_alloc_objid_bound [OF Suc.prems(2)]
          objid_cache_take_eq [OF Suc.prems(3) q] hmp1_def ent1_def)
  have inv1: "objid_inv hmp1" by (rule objid_inv_alloc [OF Suc.prems(1) al])
  have b1: "inode_objid_cache hmp1 dip = Some a" using Suc.prems(2) by (simp add: hmp1_def)
  have e1: "ocp_heap hmp1 a = Some ent1" by (simp add: hmp1_def)
  have c1: "oc_count ent1 = int (Suc k)" using Suc.prems(4) by (simp add: ent1_def)
  have m1: "master_id hmp1 = master_id hmp" by (simp add: hmp1_def)
  from Suc.IH [OF inv1 b1 e1 c1, unfolded m1] obtain hmp2 where
    r: "objid_run c hmp1 (replicate k (Alloc dip)) =
          Inr (map (\<lambda>i. oc_next_tid ent1 + of_nat i * ?st) [0..<k], hmp2)"
    and p: "hammer_alloc_objid c hmp2 dip = Inl Panic_dfly_kfree" by blast
  have ids: "map (\<lambda>i. oc_next_tid ent + of_nat i * ?st) [0..<Suc k] =
             oc_next_tid ent # map (\<lambda>i. oc_next_tid ent1 + of_nat i * ?st) [0..<k]"
    unfolding upt_Suc_map [of _ k]
    by (simp add: ent1_def algebra_simps del: upt_Suc)
  have "objid_run c hmp (replicate (Suc k) (Alloc dip)) =
      Inr (oc_next_tid ent # map (\<lambda>i. oc_next_tid ent1 + of_nat i * ?st) [0..<k], hmp2)"
    by (simp add: al r del: upt_Suc)
  with p show ?case unfolding ids by blast
qed

lemma fresh_entry_drawn:
  assumes "objid_inv hmp" and "inode_objid_cache hmp dip = None"
    and "objid_cache_count hmp < OBJID_CACHE_SIZE c"
    and "\<not> TID_LIMIT \<le> alloc_tid_id c hmp"
    and "OBJID_CACHE_BULK c = int (Suc k)"
  shows "\<exists>hmp1. objid_run c hmp (replicate k (Alloc dip)) =
           Inr (map (\<lambda>i. alloc_tid_id c hmp + of_nat i *
                     (if master_id hmp < 0 then 1 else word_of_int (HAMMER_MAX_MASTERS c)))
                  [0..<k], hmp1) \<and>
         hammer_alloc_objid c hmp1 dip = Inl Panic_dfly_kfree"
proof -
  define hB where "hB = bind_fresh c hmp dip"
  have invB: "objid_inv hB" unfolding hB_def by (rule objid_inv_bind_fresh [OF assms(1,2)])
  have bB: "inode_objid_cache hB dip = Some (ocp_brk hmp)" by (simp add: hB_def)
  have eB: "ocp_heap hB (ocp_brk hmp) =
             Some \<lparr>oc_dip = Some dip, oc_next_tid = alloc_tid_id c hmp,
                   oc_count = OBJID_CACHE_BULK c\<rparr>"
    by (simp add: hB_def bind_fresh_def)
  have cB: "oc_count \<lparr>oc_dip = Some dip, oc_next_tid = alloc_tid_id c hmp,
                   oc_count = OBJID_CACHE_BULK c\<rparr> = int (Suc k)"
    using assms(5) by simp
  have mB: "master_id hB = master_id hmp" by (simp add: hB_def bind_fresh_def)
  have same: "hammer_alloc_objid c hmp dip = hammer_alloc_objid c hB dip"
    using assms(4)
    by (simp add: hammer_alloc_objid_fresh [OF assms(2,3)]
          hammer_alloc_objid_bound [OF bB [unfolded hB_def]] hB_def)
  from drain_entry [OF invB bB eB cB, of c, unfolded mB] obtain hmp1 where
    r: "objid_run c hB (replicate k (Alloc dip)) =
          Inr (map (\<lambda>i. alloc_tid_id c hmp + of_nat i *
                     (if master_id hmp < 0 then 1 else word_of_int (HAMMER_MAX_MASTERS c)))
                  [0..<k], hmp1)"
    and p: "hammer_alloc_objid c hmp1 dip = Inl Panic_dfly_kfree" by auto
  show ?thesis
  proof (cases k)
    case 0
    with r have "hmp1 = hB" by simp
    with p same have "hammer_alloc_objid c hmp dip = Inl Panic_dfly_kfree" by simp
    with 0 show ?thesis by simp
  next
    case (Suc k')
    then have "objid_run c hmp (replicate k (Alloc dip)) =
               objid_run c hB (replicate k (Alloc dip))"
      by (simp add: same)
    with r p show ?thesis by (intro exI [of _ hmp1]) (simp only: simp_thms)
  qed
qed

text \<open>
  C9: the call of \<^verbatim>\<open>hammer_alloc_objid\<close> that takes the last id of a cache entry, be it
  the entry of the directory or one just taken over from the head of a full pool,
  does not return.  It takes the entry out of the queue, clears the pointer of the
  directory and decrements the counter, and then hands the entry to \<^verbatim>\<open>kfree\<close>, which
  is \<^verbatim>\<open>dfly_kfree\<close> and panics.  So in single-master mode a directory without an
  entry that calls \<^verbatim>\<open>hammer_alloc_objid\<close> while the pool has room receives the
  consecutive ids \<open>next_tid + 1, ..., next_tid + OBJID_CACHE_BULK - 1\<close>, every draw
  returning the \<open>next_tid\<close> of the entry and advancing it by one, and its call number
  \<^verbatim>\<open>OBJID_CACHE_BULK\<close> ends in that panic: the last id of the entry is never
  returned, the entry is not freed, and no later call obtains a fresh entry in its
  place.
\<close>

theorem C9_last_id_panics:
  assumes "objid_inv hmp"
  shows "(inode_objid_cache hmp dip = Some a \<and> ocp_heap hmp a = Some ent \<and> oc_count ent = 1 \<longrightarrow>
            hammer_alloc_objid c hmp dip = Inl Panic_dfly_kfree) \<and>
         (inode_objid_cache hmp dip = None \<and> \<not> objid_cache_count hmp < OBJID_CACHE_SIZE c \<and>
          objid_cache_list hmp = a # rest \<and> ocp_heap hmp a = Some ent \<and> oc_count ent = 1 \<longrightarrow>
            hammer_alloc_objid c hmp dip = Inl Panic_dfly_kfree) \<and>
         (master_id hmp < 0 \<and> inode_objid_cache hmp dip = None \<and>
          objid_cache_count hmp < OBJID_CACHE_SIZE c \<and> OBJID_CACHE_BULK c = int (Suc k) \<and>
          \<not> TID_LIMIT \<le> next_tid hmp + 1 \<longrightarrow>
            (\<exists>hmp1. objid_run c hmp (replicate k (Alloc dip)) =
                      Inr (map (\<lambda>i. next_tid hmp + 1 + of_nat i) [0..<k], hmp1) \<and>
                    hammer_alloc_objid c hmp1 dip = Inl Panic_dfly_kfree) \<and>
            objid_run c hmp (replicate (Suc k) (Alloc dip)) = Inl Panic_dfly_kfree) \<and>
         (master_id hmp < 0 \<and> inode_objid_cache hmp dip = Some a \<and> ocp_heap hmp a = Some ent \<and>
          oc_count ent \<noteq> 1 \<longrightarrow>
            (\<exists>hmp1. hammer_alloc_objid c hmp dip = Inr (oc_next_tid ent, hmp1) \<and>
               inode_objid_cache hmp1 dip = Some a \<and>
               ocp_heap hmp1 a =
                 Some (ent\<lparr>oc_next_tid := oc_next_tid ent + 1, oc_count := oc_count ent - 1\<rparr>)))"
  (is "?P1 \<and> ?P2 \<and> ?P3 \<and> ?P4")
proof -
  have P1: ?P1
  proof (rule impI)
    assume a: "inode_objid_cache hmp dip = Some a \<and> ocp_heap hmp a = Some ent \<and> oc_count ent = 1"
    then have b: "inode_objid_cache hmp dip = Some a" and e: "ocp_heap hmp a = Some ent"
      and c1: "oc_count ent = 1" by simp_all
    from objid_inv_bound(2) [OF assms b] have q: "a \<in> set (objid_cache_list hmp)" .
    show "hammer_alloc_objid c hmp dip = Inl Panic_dfly_kfree"
      using c1 by (simp add: hammer_alloc_objid_bound [OF b] objid_cache_take_eq [OF e q])
  qed
  have P2: ?P2
  proof (rule impI)
    assume a: "inode_objid_cache hmp dip = None \<and> \<not> objid_cache_count hmp < OBJID_CACHE_SIZE c \<and>
          objid_cache_list hmp = a # rest \<and> ocp_heap hmp a = Some ent \<and> oc_count ent = 1"
    then have n: "inode_objid_cache hmp dip = None"
      and ge: "\<not> objid_cache_count hmp < OBJID_CACHE_SIZE c"
      and l: "objid_cache_list hmp = a # rest" and e: "ocp_heap hmp a = Some ent"
      and c1: "oc_count ent = 1" by simp_all
    define hB where "hB = bind_first hmp dip a ent"
    have eB: "ocp_heap hB a = Some (ent\<lparr>oc_dip := Some dip\<rparr>)"
      and qB: "a \<in> set (objid_cache_list hB)"
      using l by (simp_all add: hB_def bind_first_def)
    have "hammer_alloc_objid c hmp dip = objid_cache_take c hB dip a"
      unfolding hB_def by (rule hammer_alloc_objid_evict [OF n ge l e])
    also note objid_cache_take_eq [OF eB qB]
    finally show "hammer_alloc_objid c hmp dip = Inl Panic_dfly_kfree"
      using c1 by simp
  qed
  have P3: ?P3
  proof (rule impI)
    assume a: "master_id hmp < 0 \<and> inode_objid_cache hmp dip = None \<and>
          objid_cache_count hmp < OBJID_CACHE_SIZE c \<and> OBJID_CACHE_BULK c = int (Suc k) \<and>
          \<not> TID_LIMIT \<le> next_tid hmp + 1"
    then have m: "master_id hmp < 0" and n: "inode_objid_cache hmp dip = None"
      and lt: "objid_cache_count hmp < OBJID_CACHE_SIZE c"
      and bk: "OBJID_CACHE_BULK c = int (Suc k)"
      and nl: "\<not> TID_LIMIT \<le> next_tid hmp + 1" by simp_all
    have i: "alloc_tid_id c hmp = next_tid hmp + 1"
      using m by (simp add: alloc_tid_id_def)
    from nl have nl': "\<not> TID_LIMIT \<le> alloc_tid_id c hmp" by (simp add: i)
    from fresh_entry_drawn [OF assms n lt nl' bk] obtain hmp1 where
      r: "objid_run c hmp (replicate k (Alloc dip)) =
            Inr (map (\<lambda>i. next_tid hmp + 1 + of_nat i) [0..<k], hmp1)"
      and p: "hammer_alloc_objid c hmp1 dip = Inl Panic_dfly_kfree"
      unfolding i using m by auto
    have "replicate (Suc k) (Alloc dip) = replicate k (Alloc dip) @ [Alloc dip]"
      by (simp add: replicate_append_same)
    then have "objid_run c hmp (replicate (Suc k) (Alloc dip)) = Inl Panic_dfly_kfree"
      by (simp only: objid_run_snoc_alloc r p sum.case prod.case)
    with r p show "(\<exists>hmp1. objid_run c hmp (replicate k (Alloc dip)) =
                      Inr (map (\<lambda>i. next_tid hmp + 1 + of_nat i) [0..<k], hmp1) \<and>
                    hammer_alloc_objid c hmp1 dip = Inl Panic_dfly_kfree) \<and>
            objid_run c hmp (replicate (Suc k) (Alloc dip)) = Inl Panic_dfly_kfree"
      by blast
  qed
  have P4: ?P4
  proof (rule impI)
    assume a: "master_id hmp < 0 \<and> inode_objid_cache hmp dip = Some a \<and>
          ocp_heap hmp a = Some ent \<and> oc_count ent \<noteq> 1"
    then have m: "master_id hmp < 0" and b: "inode_objid_cache hmp dip = Some a"
      and e: "ocp_heap hmp a = Some ent" and c1: "oc_count ent \<noteq> 1" by simp_all
    from objid_inv_bound(2) [OF assms b] have q: "a \<in> set (objid_cache_list hmp)" .
    show "\<exists>hmp1. hammer_alloc_objid c hmp dip = Inr (oc_next_tid ent, hmp1) \<and>
               inode_objid_cache hmp1 dip = Some a \<and>
               ocp_heap hmp1 a =
                 Some (ent\<lparr>oc_next_tid := oc_next_tid ent + 1, oc_count := oc_count ent - 1\<rparr>)"
      unfolding hammer_alloc_objid_bound [OF b] objid_cache_take_eq [OF e q]
      using m b c1 by simp
  qed
  from P1 P2 P3 P4 show ?thesis by (intro conjI)
qed

theorem C9_last_id_panics_witness:
  "(\<exists>hmp1. objid_run (consts0 1 4) (mount0 (- 1) 100) [Alloc 0, Alloc 0, Alloc 0] =
             Inr ([101, 102, 103], hmp1)) \<and>
   objid_run (consts0 1 4) (mount0 (- 1) 100) [Alloc 0, Alloc 0, Alloc 0, Alloc 0] =
     Inl Panic_dfly_kfree"
proof -
  have h: "master_id (mount0 (- 1) 100) < 0 \<and> inode_objid_cache (mount0 (- 1) 100) 0 = None \<and>
          objid_cache_count (mount0 (- 1) 100) < OBJID_CACHE_SIZE (consts0 1 4) \<and>
          OBJID_CACHE_BULK (consts0 1 4) = int (Suc 3) \<and>
          \<not> TID_LIMIT \<le> next_tid (mount0 (- 1) 100) + 1"
    by (simp add: mount0_def consts0_def TID_LIMIT_def)
  have r4: "replicate (Suc 3) (Alloc 0) = [Alloc 0, Alloc 0, Alloc 0, Alloc 0]"
    and r3: "replicate 3 (Alloc 0) = [Alloc 0, Alloc 0, Alloc 0]"
    by (simp_all add: eval_nat_numeral)
  have m: "map (\<lambda>i. next_tid (mount0 (- 1) 100) + 1 + of_nat i) [0..<3] =
             [101, 102, 103 :: 64 word]"
    by (simp add: mount0_def eval_nat_numeral)
  from C9_last_id_panics [OF objid_inv_mount0, THEN conjunct2, THEN conjunct2,
      THEN conjunct1, rule_format, OF h]
  show ?thesis unfolding r4 r3 m by blast
qed

subsection \<open>Every object id is handed out once\<close>

text \<open>
  The ids of a new reservation lie above \<open>next_tid\<close> as it was and below \<open>next_tid\<close>
  as the reservation leaves it.  In multi-master mode the id is the aligned base plus
  the master id.
\<close>

lemma unat_and_not_mask:
  "unat ((w::'a::len word) AND NOT (mask k)) = unat w div 2 ^ k * 2 ^ k"
proof -
  have "unat w div 2 ^ k * 2 ^ k \<le> unat w"
    by (metis div_mult_mod_eq le_add1)
  then have "unat (word_of_nat (unat w div 2 ^ k * 2 ^ k) :: 'a word) = unat w div 2 ^ k * 2 ^ k"
    by (rule le_unat_uoi)
  then show ?thesis
    by (simp only: and_not_mask_of_nat)
qed

lemma unat_or_low:
  fixes b m :: "64 word"
  assumes "b AND NOT (mask k) = b" and "unat m < 2 ^ k"
  shows "unat b \<le> unat (b OR m)" and "unat (b OR m) < unat b + 2 ^ k"
proof -
  show "unat b \<le> unat (b OR m)"
    using le_word_or2 [of b m] by (simp add: word_le_nat_alt)
  have "m AND NOT (mask k) = 0"
    using assms(2) by (simp add: and_not_mask_of_nat)
  then have "(b OR m) AND NOT (mask k) = b"
    using assms(1) by (simp add: bit.conj_disj_distrib2)
  then have "unat b = unat (b OR m) div 2 ^ k * 2 ^ k"
    using unat_and_not_mask [of "b OR m" k] by simp
  moreover have "unat (b OR m) = unat (b OR m) div 2 ^ k * 2 ^ k + unat (b OR m) mod 2 ^ k"
    by (simp only: div_mult_mod_eq)
  moreover have "unat (b OR m) mod 2 ^ k < 2 ^ k" by simp
  ultimately show "unat (b OR m) < unat b + 2 ^ k" by linarith
qed


lemma fresh_ids_single:
  assumes "master_id hmp < 0" and "1 \<le> OBJID_CACHE_BULK c" and "OBJID_CACHE_BULK c < 2 ^ 24"
    and "\<not> TID_LIMIT \<le> alloc_tid_id c hmp"
  shows "unat (alloc_tid_id c hmp) + (nat (OBJID_CACHE_BULK c) - 1) * stride c hmp <
           unat (alloc_tid_next c hmp (OBJID_CACHE_BULK c))"
    and "unat (alloc_tid_next c hmp (OBJID_CACHE_BULK c)) + stride c hmp < 2 ^ 64"
    and "unat (next_tid hmp) + stride c hmp < 2 ^ 64 \<Longrightarrow>
           unat (next_tid hmp) < unat (alloc_tid_id c hmp)"
proof -
  let ?n = "OBJID_CACHE_BULK c"
  have k: "stride c hmp = 1" using assms(1) by (simp add: stride_def)
  have i: "alloc_tid_id c hmp = next_tid hmp + 1"
    and x: "alloc_tid_next c hmp ?n = alloc_tid_id c hmp + word_of_int ?n"
    using assms(1) by (simp_all add: alloc_tid_id_def alloc_tid_next_def)
  from assms(4) have tl: "unat (alloc_tid_id c hmp) < 0xFFFFFFFFFF000000"
    by (simp add: TID_LIMIT_def word_le_nat_alt)
  have n: "nat ?n < 2 ^ 24" "0 < nat ?n" using assms(2,3) by (simp_all add: nat_less_iff)
  have "unat (alloc_tid_id c hmp) + nat ?n < 2 ^ 64" using tl n by simp
  then have u: "unat (alloc_tid_next c hmp ?n) = unat (alloc_tid_id c hmp) + nat ?n"
    unfolding x using assms(2) by (intro unat_add_small) simp_all
  show "unat (alloc_tid_id c hmp) + (nat ?n - 1) * stride c hmp < unat (alloc_tid_next c hmp ?n)"
    using n by (simp add: u k)
  show "unat (alloc_tid_next c hmp ?n) + stride c hmp < 2 ^ 64"
    using tl n by (simp add: u k)
  show "unat (next_tid hmp) < unat (alloc_tid_id c hmp)"
    if "unat (next_tid hmp) + stride c hmp < 2 ^ 64"
  proof -
    from that have "unat (next_tid hmp) < 2 ^ 64 - 1" by (simp add: k)
    then show ?thesis unfolding i by (simp add: unat_succ)
  qed
qed


lemma next_multiple_above:
  fixes F P :: nat
  assumes "0 < P"
  shows "F < (F div P + 1) * P" and "(F div P + 1) * P \<le> F + P"
proof -
  have "F div P * P + F mod P = F" by simp
  moreover have "F mod P < P" using assms by simp
  ultimately have "F < F div P * P + P" by linarith
  then show "F < (F div P + 1) * P" by (simp add: algebra_simps)
  have "F div P * P \<le> F" by (metis div_mult_mod_eq le_add1)
  then show "(F div P + 1) * P \<le> F + P" by (simp add: algebra_simps)
qed

lemma fresh_ids_multi:
  assumes "0 \<le> master_id hmp" and "1 \<le> OBJID_CACHE_BULK c"
    and "HAMMER_MAX_MASTERS c = 2 ^ j" and "master_id hmp < HAMMER_MAX_MASTERS c"
    and "HAMMER_MAX_MASTERS c * (OBJID_CACHE_BULK c + 1) \<le> 2 ^ 24"
    and "\<not> TID_LIMIT \<le> alloc_tid_id c hmp"
  shows "unat (alloc_tid_id c hmp) + (nat (OBJID_CACHE_BULK c) - 1) * stride c hmp <
           unat (alloc_tid_next c hmp (OBJID_CACHE_BULK c))"
    and "unat (alloc_tid_next c hmp (OBJID_CACHE_BULK c)) + stride c hmp < 2 ^ 64"
    and "unat (next_tid hmp) + stride c hmp < 2 ^ 64 \<Longrightarrow>
           unat (next_tid hmp) < unat (alloc_tid_id c hmp)"
proof -
  let ?n = "OBJID_CACHE_BULK c"
  define P :: nat where "P = 2 ^ j"
  define N where "N = nat ?n"
  define base :: "64 word" where "base = (next_tid hmp + 2 ^ j) AND NOT (mask j)"
  define F where "F = unat (next_tid hmp)"
  have P0: "0 < P" by (simp add: P_def)
  have N1: "1 \<le> N" using assms(2) by (simp add: N_def)
  have "(2::int) ^ j * 2 \<le> 2 ^ j * (?n + 1)" using assms(2) by simp
  also have "\<dots> \<le> 2 ^ 24" using assms(3,5) by simp
  finally have "(2::int) ^ Suc j \<le> 2 ^ 24" by (simp add: mult.commute)
  then have "Suc j \<le> 24" by (simp only: power_increasing_iff)
  then have j: "j < 64" by simp
  have k: "stride c hmp = P"
    using assms(1,3) by (simp add: stride_def P_def nat_power_eq)
  have "nat (2 ^ j * (?n + 1)) \<le> nat (2 ^ 24)"
    using assms(3,5) by (simp only: nat_mono)
  then have NP: "P * (N + 1) \<le> 2 ^ 24"
    using assms(2) by (simp add: nat_mult_distrib nat_power_eq nat_add_distrib P_def N_def)
  have "0 \<le> ?n * 2 ^ j" using assms(2) by simp
  moreover have "?n * 2 ^ j < 2 ^ 31"
  proof -
    have "?n * 2 ^ j \<le> 2 ^ j * (?n + 1)" by (simp add: algebra_simps)
    also have "\<dots> \<le> 2 ^ 24" using assms(3,5) by simp
    also have "\<dots> < (2::int) ^ 31" by simp
    finally show ?thesis .
  qed
  ultimately have i32: "int32 (?n * 2 ^ j) = ?n * 2 ^ j" by (intro int32_id) simp_all
  have i: "alloc_tid_id c hmp = base OR word_of_int (master_id hmp)"
    and x: "alloc_tid_next c hmp ?n = base + word_of_int (?n * 2 ^ j)"
    using assms(1,3)
    by (simp_all add: alloc_tid_id_def alloc_tid_next_def base_def word_of_int_2p
          mask_eq_exp_minus_1 i32)
  have al: "base AND NOT (mask j) = base"
    by (simp add: base_def and.assoc)
  have "master_id hmp < 2 ^ 64"
    using assms(3,4) j power_strict_increasing [of j 64 "2::int"] by simp
  then have "unat (word_of_int (master_id hmp) :: 64 word) = nat (master_id hmp)"
    using assms(1) by (intro unat_word_of_int_small) simp_all
  moreover have "nat (master_id hmp) < P"
    using assms(1,3,4) by (simp add: P_def nat_less_iff)
  ultimately have ml: "unat (word_of_int (master_id hmp) :: 64 word) < 2 ^ j"
    by (simp add: P_def)
  note lo = unat_or_low [OF al ml, folded i]
  from assms(6) have tl: "unat (alloc_tid_id c hmp) < 0xFFFFFFFFFF000000"
    by (simp add: TID_LIMIT_def word_le_nat_alt)
  with lo(1) have bl: "unat base < 0xFFFFFFFFFF000000" by simp
  have nn: "nat (?n * 2 ^ j) = N * P"
    using assms(2) by (simp add: nat_mult_distrib nat_power_eq N_def P_def)
  have "N * P + P \<le> 2 ^ 24" using NP by (simp add: algebra_simps)
  with bl have small: "unat base + N * P + P < 2 ^ 64" by simp
  then have "unat base + nat (?n * 2 ^ j) < 2 ^ 64" by (simp add: nn)
  then have u: "unat (alloc_tid_next c hmp ?n) = unat base + N * P"
    unfolding x using assms(2) by (subst unat_add_small) (simp_all add: nn)
  have "unat (alloc_tid_id c hmp) + (N - 1) * P < unat base + P + (N - 1) * P"
    using lo(2) by (simp add: P_def)
  also have "\<dots> = unat base + N * P"
    using N1 by (cases N) simp_all
  finally show "unat (alloc_tid_id c hmp) + (nat ?n - 1) * stride c hmp <
           unat (alloc_tid_next c hmp ?n)"
    by (simp add: u k N_def)
  show "unat (alloc_tid_next c hmp ?n) + stride c hmp < 2 ^ 64"
    using small by (simp add: u k)
  show "unat (next_tid hmp) < unat (alloc_tid_id c hmp)"
    if "unat (next_tid hmp) + stride c hmp < 2 ^ 64"
  proof -
    from that have lt: "F + P < 2 ^ 64" by (simp add: k F_def)
    have "base = word_of_nat ((F div P + 1) * P)"
      unfolding base_def F_def P_def mask_eq_exp_minus_1 by (rule round_next_multiple [OF j])
    moreover have "(F div P + 1) * P < 2 ^ 64"
      using next_multiple_above(2) [OF P0, of F] lt by linarith
    then have "(F div P + 1) * P < 2 ^ LENGTH(64)" by simp
    then have "unat (word_of_nat ((F div P + 1) * P) :: 64 word) = (F div P + 1) * P"
      by (simp only: unat_of_nat mod_less)
    ultimately have "unat base = (F div P + 1) * P"
      by (simp only:)
    with next_multiple_above(1) [OF P0, of F] lo(1) show ?thesis
      by (simp add: F_def)
  qed
qed


lemma fresh_ids:
  assumes "objid_params_ok c (master_id hmp)" and "\<not> TID_LIMIT \<le> alloc_tid_id c hmp"
  shows "unat (alloc_tid_id c hmp) + (nat (OBJID_CACHE_BULK c) - 1) * stride c hmp <
           unat (alloc_tid_next c hmp (OBJID_CACHE_BULK c))"
    and "unat (alloc_tid_next c hmp (OBJID_CACHE_BULK c)) + stride c hmp < 2 ^ 64"
    and "unat (next_tid hmp) + stride c hmp < 2 ^ 64 \<Longrightarrow>
           unat (next_tid hmp) < unat (alloc_tid_id c hmp)"
proof -
  have "(unat (alloc_tid_id c hmp) + (nat (OBJID_CACHE_BULK c) - 1) * stride c hmp <
           unat (alloc_tid_next c hmp (OBJID_CACHE_BULK c))) \<and>
        (unat (alloc_tid_next c hmp (OBJID_CACHE_BULK c)) + stride c hmp < 2 ^ 64) \<and>
        (unat (next_tid hmp) + stride c hmp < 2 ^ 64 \<longrightarrow>
           unat (next_tid hmp) < unat (alloc_tid_id c hmp))"
  proof (cases "master_id hmp < 0")
    case True
    with assms(1) have b: "1 \<le> OBJID_CACHE_BULK c" "OBJID_CACHE_BULK c < 2 ^ 24"
      by (simp_all add: objid_params_ok_def)
    from fresh_ids_single [OF True b assms(2)] show ?thesis by blast
  next
    case False
    then have m: "0 \<le> master_id hmp" by simp
    from assms(1) False obtain j where b: "1 \<le> OBJID_CACHE_BULK c"
      "HAMMER_MAX_MASTERS c = 2 ^ j" "master_id hmp < HAMMER_MAX_MASTERS c"
      "HAMMER_MAX_MASTERS c * (OBJID_CACHE_BULK c + 1) \<le> 2 ^ 24"
      by (auto simp: objid_params_ok_def)
    from fresh_ids_multi [OF m b assms(2)] show ?thesis by blast
  qed
  then show "unat (alloc_tid_id c hmp) + (nat (OBJID_CACHE_BULK c) - 1) * stride c hmp <
           unat (alloc_tid_next c hmp (OBJID_CACHE_BULK c))"
    and "unat (alloc_tid_next c hmp (OBJID_CACHE_BULK c)) + stride c hmp < 2 ^ 64"
    and "unat (next_tid hmp) + stride c hmp < 2 ^ 64 \<Longrightarrow>
           unat (next_tid hmp) < unat (alloc_tid_id c hmp)"
    by blast+
qed

lemma stride_word:
  assumes "objid_params_ok c (master_id hmp)"
  shows "0 < stride c hmp"
    and "unat (if master_id hmp < 0 then 1 else word_of_int (HAMMER_MAX_MASTERS c) :: 64 word) =
           stride c hmp"
proof -
  have "0 < stride c hmp \<and>
    unat (if master_id hmp < 0 then 1 else word_of_int (HAMMER_MAX_MASTERS c) :: 64 word) =
           stride c hmp"
  proof (cases "master_id hmp < 0")
    case True
    then show ?thesis by (simp add: stride_def)
  next
    case False
    from assms False obtain j where b: "1 \<le> OBJID_CACHE_BULK c"
      "HAMMER_MAX_MASTERS c = 2 ^ j"
      "HAMMER_MAX_MASTERS c * (OBJID_CACHE_BULK c + 1) \<le> 2 ^ 24"
      by (auto simp: objid_params_ok_def)
    have "(2::int) ^ j * 1 \<le> 2 ^ j * (OBJID_CACHE_BULK c + 1)" using b(1) by simp
    also have "\<dots> \<le> 2 ^ 24" using b(2,3) by simp
    finally have "(2::int) ^ j \<le> 2 ^ 24" by simp
    then have "j \<le> 24" by (simp only: power_increasing_iff)
    then have j: "j < 64" by simp
    have "unat (word_of_int (2 ^ j) :: 64 word) = 2 ^ j"
      using unat_2p64 [OF j] by (simp add: word_of_int_2p)
    with False b(2) show ?thesis by (simp add: stride_def nat_power_eq)
  qed
  then show "0 < stride c hmp"
    and "unat (if master_id hmp < 0 then 1 else word_of_int (HAMMER_MAX_MASTERS c) :: 64 word) =
           stride c hmp"
    by blast+
qed

text \<open>The ids an entry has left.\<close>

lemma ent_ids_dip [simp]: "ent_ids k (ent\<lparr>oc_dip := d\<rparr>) = ent_ids k ent"
  by (simp add: ent_ids_def)

lemma ent_ids_first: "0 < oc_count ent \<Longrightarrow> unat (oc_next_tid ent) \<in> ent_ids k ent"
  unfolding ent_ids_def by (rule image_eqI [of _ _ 0]) simp_all

lemma ent_ids_second:
  "0 < oc_count ent \<Longrightarrow> oc_count ent \<noteq> 1 \<Longrightarrow> unat (oc_next_tid ent) + k \<in> ent_ids k ent"
  unfolding ent_ids_def by (rule image_eqI [of _ _ 1]) simp_all

lemma ent_ids_bounds:
  assumes "x \<in> ent_ids k ent"
  shows "unat (oc_next_tid ent) \<le> x" and "x \<le> unat (oc_next_tid ent) + (nat (oc_count ent) - 1) * k"
proof -
  from assms obtain i where i: "i < nat (oc_count ent)" and x: "x = unat (oc_next_tid ent) + i * k"
    by (auto simp: ent_ids_def)
  show "unat (oc_next_tid ent) \<le> x" by (simp add: x)
  from i have "i \<le> nat (oc_count ent) - 1" by simp
  then have "i * k \<le> (nat (oc_count ent) - 1) * k" by (rule mult_le_mono1)
  then show "x \<le> unat (oc_next_tid ent) + (nat (oc_count ent) - 1) * k" by (simp add: x)
qed

lemma ent_ids_rest:
  assumes "0 < k" and "unat nx = unat (oc_next_tid ent) + k"
  shows "ent_ids k (ent\<lparr>oc_next_tid := nx, oc_count := oc_count ent - 1\<rparr>) \<subseteq>
           ent_ids k ent - {unat (oc_next_tid ent)}"
proof
  fix x assume "x \<in> ent_ids k (ent\<lparr>oc_next_tid := nx, oc_count := oc_count ent - 1\<rparr>)"
  then obtain i where i: "i < nat (oc_count ent - 1)" and x: "x = unat nx + i * k"
    by (auto simp: ent_ids_def)
  from i have "Suc i < nat (oc_count ent)" by simp
  moreover have "x = unat (oc_next_tid ent) + Suc i * k" by (simp add: x assms(2))
  ultimately have "x \<in> ent_ids k ent" unfolding ent_ids_def by blast
  moreover have "x \<noteq> unat (oc_next_tid ent)" using assms(1) by (simp add: x assms(2))
  ultimately show "x \<in> ent_ids k ent - {unat (oc_next_tid ent)}" by simp
qed


text \<open>The relation between the ids is kept by every step of the cache.\<close>

lemma ids_wf_fresh:
  assumes "ids_wf k F h S" and "h b = None" and "0 < n"
    and "unat t + (nat n - 1) * k < F'" and "F' + k < 2 ^ 64"
    and "F + k < 2 ^ 64 \<Longrightarrow> F < unat t"
  shows "ids_wf k F' (h(b \<mapsto> \<lparr>oc_dip = d, oc_next_tid = t, oc_count = n\<rparr>)) S"
proof -
  let ?e = "\<lparr>oc_dip = d, oc_next_tid = t, oc_count = n\<rparr>"
  have new: "\<And>x. x \<in> ent_ids k ?e \<Longrightarrow> unat t \<le> x \<and> x < F'"
    using ent_ids_bounds [of _ k ?e] assms(4) by fastforce
  have old_e: "\<And>a ent. h a = Some ent \<Longrightarrow>
      0 < oc_count ent \<and> (\<forall>x\<in>ent_ids k ent. x < F) \<and> ent_ids k ent \<inter> S = {}"
    and old_s: "\<And>x. x \<in> S \<Longrightarrow> x < F"
    and old_d: "\<And>a b ea eb. a \<noteq> b \<Longrightarrow> h a = Some ea \<Longrightarrow> h b = Some eb \<Longrightarrow>
      ent_ids k ea \<inter> ent_ids k eb = {}"
    and deg: "(S = {} \<and> (\<forall>a. h a = None)) \<or> F + k < 2 ^ 64"
    using assms(1) unfolding ids_wf_def by blast+
  show ?thesis
  proof (cases "S = {} \<and> (\<forall>a. h a = None)")
    case True
    then show ?thesis
      unfolding ids_wf_def using assms(3,5) new by auto
  next
    case False
    with deg assms(6) have Ft: "F < unat t" by blast
    with assms(4) have FF: "F < F'" by simp
    show ?thesis
      unfolding ids_wf_def
    proof (intro conjI allI impI ballI)
      fix a ent assume h: "(h(b \<mapsto> ?e)) a = Some ent"
      show "0 < oc_count ent"
        using h old_e [of a ent] assms(3) by (cases "a = b") auto
      show "ent_ids k ent \<inter> S = {}"
      proof (cases "a = b")
        case True
        with h have "ent = ?e" by simp
        then show ?thesis using new old_s Ft by fastforce
      next
        case False
        with h old_e [of a ent] show ?thesis by simp
      qed
      fix x assume x: "x \<in> ent_ids k ent"
      show "x < F'"
      proof (cases "a = b")
        case True
        with h have "ent = ?e" by simp
        with x new show ?thesis by blast
      next
        case False
        with h old_e [of a ent] x FF show ?thesis by fastforce
      qed
    next
      fix x assume "x \<in> S"
      with old_s FF show "x < F'" by fastforce
    next
      fix a a' ea eb
      assume a: "a \<noteq> a' \<and> (h(b \<mapsto> ?e)) a = Some ea \<and> (h(b \<mapsto> ?e)) a' = Some eb"
      have sep: "ent_ids k eo \<inter> ent_ids k ?e = {}" if "h ao = Some eo" for ao eo
        using old_e [OF that] new Ft by fastforce
      show "ent_ids k ea \<inter> ent_ids k eb = {}"
      proof (cases "a = b")
        case True
        with a have "ea = ?e" "h a' = Some eb" by auto
        with sep [of a' eb] show ?thesis by blast
      next
        case False
        show ?thesis
        proof (cases "a' = b")
          case True
          with a False have "eb = ?e" "h a = Some ea" by auto
          with sep [of a ea] show ?thesis by blast
        next
          case False
          with \<open>a \<noteq> b\<close> a old_d [of a a' ea eb] show ?thesis by simp
        qed
      qed
    next
      show "S = {} \<and> (\<forall>a. (h(b \<mapsto> ?e)) a = None) \<or> F' + k < 2 ^ 64"
        using assms(5) by simp
    qed
  qed
qed

lemma ids_wf_shrink:
  assumes "ids_wf k F h S"
    and sub: "\<And>a e'. h' a = Some e' \<Longrightarrow>
               \<exists>e. h a = Some e \<and> ent_ids k e' \<subseteq> ent_ids k e \<and> 0 < oc_count e'"
    and new: "\<And>x. x \<in> S' \<Longrightarrow> x \<notin> S \<Longrightarrow>
               x < F \<and> (\<forall>a e'. h' a = Some e' \<longrightarrow> x \<notin> ent_ids k e')"
    and wrap: "(S' = {} \<and> (\<forall>a. h' a = None)) \<or> F + k < 2 ^ 64"
  shows "ids_wf k F h' S'"
proof -
  have old_e: "\<And>a ent. h a = Some ent \<Longrightarrow>
      (\<forall>x\<in>ent_ids k ent. x < F) \<and> ent_ids k ent \<inter> S = {}"
    and old_s: "\<And>x. x \<in> S \<Longrightarrow> x < F"
    and old_d: "\<And>a b ea eb. a \<noteq> b \<Longrightarrow> h a = Some ea \<Longrightarrow> h b = Some eb \<Longrightarrow>
      ent_ids k ea \<inter> ent_ids k eb = {}"
    using assms(1) unfolding ids_wf_def by blast+
  show ?thesis
    unfolding ids_wf_def
  proof (intro conjI allI impI ballI)
    fix a e' assume h: "h' a = Some e'"
    from sub [OF h] obtain e where e: "h a = Some e" "ent_ids k e' \<subseteq> ent_ids k e"
      and c: "0 < oc_count e'" by blast
    show "0 < oc_count e'" by (rule c)
    show "ent_ids k e' \<inter> S' = {}"
    proof (rule ccontr)
      assume "ent_ids k e' \<inter> S' \<noteq> {}"
      then obtain x where x: "x \<in> ent_ids k e'" "x \<in> S'" by blast
      show False
      proof (cases "x \<in> S")
        case True
        with x(1) e old_e [OF e(1)] show False by blast
      next
        case False
        from new [OF x(2) False] h x(1) show False by blast
      qed
    qed
    fix x assume "x \<in> ent_ids k e'"
    with e old_e [OF e(1)] show "x < F" by blast
  next
    fix x assume x: "x \<in> S'"
    show "x < F"
    proof (cases "x \<in> S")
      case True
      then show ?thesis by (rule old_s)
    next
      case False
      from new [OF x False] show ?thesis by blast
    qed
  next
    fix a b ea eb assume a: "a \<noteq> b \<and> h' a = Some ea \<and> h' b = Some eb"
    from a sub [of a ea] obtain ea0 where ea0: "h a = Some ea0" "ent_ids k ea \<subseteq> ent_ids k ea0"
      by blast
    from a sub [of b eb] obtain eb0 where eb0: "h b = Some eb0" "ent_ids k eb \<subseteq> ent_ids k eb0"
      by blast
    from a old_d [OF _ ea0(1) eb0(1)] have "ent_ids k ea0 \<inter> ent_ids k eb0 = {}" by blast
    with ea0(2) eb0(2) show "ent_ids k ea \<inter> ent_ids k eb = {}" by blast
  next
    show "S' = {} \<and> (\<forall>a. h' a = None) \<or> F + k < 2 ^ 64" by (rule wrap)
  qed
qed

lemma ids_wf_wrap:
  assumes "ids_wf k F h S" and "h a = Some ent"
  shows "F + k < 2 ^ 64"
  using assms unfolding ids_wf_def by auto

lemma ids_wf_dip:
  assumes "ids_wf k F h S" and "h a = Some ent"
  shows "ids_wf k F (h(a \<mapsto> ent\<lparr>oc_dip := d\<rparr>)) S"
proof (rule ids_wf_shrink [OF assms(1)])
  fix a' e' assume h: "(h(a \<mapsto> ent\<lparr>oc_dip := d\<rparr>)) a' = Some e'"
  show "\<exists>e. h a' = Some e \<and> ent_ids k e' \<subseteq> ent_ids k e \<and> 0 < oc_count e'"
  proof (cases "a' = a")
    case True
    with h have "e' = ent\<lparr>oc_dip := d\<rparr>" by simp
    with True assms show ?thesis by (auto simp: ids_wf_def)
  next
    case False
    with h assms(1) show ?thesis by (auto simp: ids_wf_def)
  qed
next
  fix x assume "x \<in> S" "x \<notin> S"
  then show "x < F \<and> (\<forall>a' e'. (h(a \<mapsto> ent\<lparr>oc_dip := d\<rparr>)) a' = Some e' \<longrightarrow> x \<notin> ent_ids k e')"
    by simp
next
  show "S = {} \<and> (\<forall>a'. (h(a \<mapsto> ent\<lparr>oc_dip := d\<rparr>)) a' = None) \<or> F + k < 2 ^ 64"
    using ids_wf_wrap [OF assms] by simp
qed

lemma ids_wf_take:
  assumes "ids_wf k F h S" and "h a = Some ent" and "0 < k"
    and "unat nx = unat (oc_next_tid ent) + k" and "oc_count ent \<noteq> 1"
    and "h' = h(a \<mapsto> ent\<lparr>oc_next_tid := nx, oc_count := oc_count ent - 1\<rparr>)"
  shows "ids_wf k F h' (insert (unat (oc_next_tid ent)) S)"
    and "unat (oc_next_tid ent) \<notin> S"
proof -
  have old_e: "\<And>a ent. h a = Some ent \<Longrightarrow>
      0 < oc_count ent \<and> (\<forall>x\<in>ent_ids k ent. x < F) \<and> ent_ids k ent \<inter> S = {}"
    and old_d: "\<And>a b ea eb. a \<noteq> b \<Longrightarrow> h a = Some ea \<Longrightarrow> h b = Some eb \<Longrightarrow>
      ent_ids k ea \<inter> ent_ids k eb = {}"
    using assms(1) unfolding ids_wf_def by blast+
  have c: "0 < oc_count ent" using old_e [OF assms(2)] by simp
  note first = ent_ids_first [OF c, of k]
  show notin: "unat (oc_next_tid ent) \<notin> S"
    using first old_e [OF assms(2)] by blast
  have rel: "\<exists>e. h a' = Some e \<and> ent_ids k e' \<subseteq> ent_ids k e \<and> 0 < oc_count e' \<and>
                unat (oc_next_tid ent) \<notin> ent_ids k e'"
    if h': "h' a' = Some e'" for a' e'
  proof (cases "a' = a")
    case True
    with h' assms(6) have e': "e' = ent\<lparr>oc_next_tid := nx, oc_count := oc_count ent - 1\<rparr>"
      by simp
    from ent_ids_rest [OF assms(3,4)] e'
    have "ent_ids k e' \<subseteq> ent_ids k ent - {unat (oc_next_tid ent)}" by simp
    moreover have "0 < oc_count e'" using c assms(5) by (simp add: e')
    ultimately show ?thesis using True assms(2) by blast
  next
    case False
    with h' assms(6) have h: "h a' = Some e'" by simp
    from old_d [OF False h assms(2)] first have "unat (oc_next_tid ent) \<notin> ent_ids k e'"
      by blast
    with h old_e [OF h] show ?thesis by blast
  qed
  show "ids_wf k F h' (insert (unat (oc_next_tid ent)) S)"
  proof (rule ids_wf_shrink [OF assms(1)])
    fix a' e' assume "h' a' = Some e'"
    from rel [OF this]
    show "\<exists>e. h a' = Some e \<and> ent_ids k e' \<subseteq> ent_ids k e \<and> 0 < oc_count e'" by blast
  next
    fix x assume "x \<in> insert (unat (oc_next_tid ent)) S" "x \<notin> S"
    then have x: "x = unat (oc_next_tid ent)" by simp
    show "x < F \<and> (\<forall>a' e'. h' a' = Some e' \<longrightarrow> x \<notin> ent_ids k e')"
      unfolding x using first old_e [OF assms(2)] rel by blast
  next
    show "insert (unat (oc_next_tid ent)) S = {} \<and> (\<forall>a. h' a = None) \<or> F + k < 2 ^ 64"
      using ids_wf_wrap [OF assms(1,2)] by simp
  qed
qed


lemma ids_inv_bind_fresh:
  assumes "objid_inv hmp" and "ids_inv c hmp S" and "objid_params_ok c (master_id hmp)"
    and "\<not> TID_LIMIT \<le> alloc_tid_id c hmp"
  shows "ids_inv c (bind_fresh c hmp dip) S"
proof -
  have nb: "ocp_brk hmp \<notin> set (objid_cache_list hmp)"
    using assms(1) by (auto simp: objid_inv_def objid_wf_def)
  then have hb: "ocp_heap hmp (ocp_brk hmp) = None"
    using assms(1) by (auto simp: objid_inv_def objid_wf_def)
  have b: "0 < OBJID_CACHE_BULK c" using assms(3) by (simp add: objid_params_ok_def)
  have st: "stride c (bind_fresh c hmp dip) = stride c hmp"
    by (simp add: stride_def bind_fresh_def)
  note f = fresh_ids [OF assms(3,4)]
  from ids_wf_fresh [OF assms(2) [unfolded ids_inv_def] hb b f(1) f(2) f(3)]
  show ?thesis
    unfolding ids_inv_def st by (simp add: bind_fresh_def)
qed

lemma ids_inv_bind_first:
  assumes "ids_inv c hmp S" and "ocp_heap hmp a = Some ent"
  shows "ids_inv c (bind_first hmp dip a ent) S"
proof -
  have st: "stride c (bind_first hmp dip a ent) = stride c hmp"
    by (simp add: stride_def bind_first_def)
  from ids_wf_dip [OF assms(1) [unfolded ids_inv_def] assms(2)]
  show ?thesis
    unfolding ids_inv_def st by (simp add: bind_first_def)
qed

lemma ids_inv_take:
  assumes "objid_inv hmp" and "ids_inv c hmp S" and "objid_params_ok c (master_id hmp)"
    and "inode_objid_cache hmp dip = Some a"
    and "objid_cache_take c hmp dip a = Inr (tid, hmp')"
  shows "ids_inv c hmp' (insert (unat tid) S) \<and> unat tid \<notin> S \<and> master_id hmp' = master_id hmp"
proof -
  note wf = assms(2) [unfolded ids_inv_def]
  note sw = stride_word [OF assms(3)]
  let ?stw = "if master_id hmp < 0 then 1 else word_of_int (HAMMER_MAX_MASTERS c) :: 64 word"
  from assms(1,4,5) show ?thesis
  proof (cases rule: objid_cache_take_result)
    case (more ent)
    have c: "0 < oc_count ent" using wf more(1) by (auto simp: ids_wf_def)
    have "unat (oc_next_tid ent) + stride c hmp < unat (next_tid hmp)"
      using ent_ids_second [OF c more(4), of "stride c hmp"] wf more(1)
      by (auto simp: ids_wf_def)
    moreover have "unat (next_tid hmp) < 2 ^ LENGTH(64)" by (rule unsigned_less)
    ultimately have "unat (oc_next_tid ent) + unat ?stw < 2 ^ LENGTH(64)"
      unfolding sw(2) by linarith
    then have nx: "unat (oc_next_tid ent + ?stw) = unat (oc_next_tid ent) + stride c hmp"
      unfolding sw(2) [symmetric] by (simp only: unat_add_lem)
    have h': "ocp_heap hmp' = (ocp_heap hmp)(a \<mapsto> ent\<lparr>oc_next_tid := oc_next_tid ent + ?stw,
               oc_count := oc_count ent - 1\<rparr>)"
      by (simp add: more(6))
    have st: "stride c hmp' = stride c hmp" and nt: "next_tid hmp' = next_tid hmp"
      and m: "master_id hmp' = master_id hmp"
      by (simp_all add: stride_def more(6))
    from ids_wf_take [OF wf more(1) sw(1) nx more(4) h'] m show ?thesis
      unfolding ids_inv_def st nt more(5) by simp
  qed
qed

lemma ids_inv_alloc:
  assumes "objid_inv hmp" and "ids_inv c hmp S" and "objid_params_ok c (master_id hmp)"
    and "hammer_alloc_objid c hmp dip = Inr (tid, hmp')"
  shows "ids_inv c hmp' (insert (unat tid) S) \<and> unat tid \<notin> S \<and> master_id hmp' = master_id hmp"
  using assms(1,4)
proof (cases rule: hammer_alloc_objid_cases)
  case (bound a)
  from ids_inv_take [OF assms(1,2,3) bound] show ?thesis .
next
  case fresh
  have m: "master_id (bind_fresh c hmp dip) = master_id hmp" by (simp add: bind_fresh_def)
  from ids_inv_take [OF objid_inv_bind_fresh [OF assms(1) fresh(1)]
      ids_inv_bind_fresh [OF assms(1,2,3) fresh(3)] assms(3) [folded m] bind_fresh_cache fresh(4)]
  show ?thesis by (simp add: m)
next
  case (evict a rest ent)
  have m: "master_id (bind_first hmp dip a ent) = master_id hmp" by (simp add: bind_first_def)
  from ids_inv_take [OF objid_inv_bind_first [OF assms(1) evict(1,4)]
      ids_inv_bind_first [OF assms(2) evict(4)] assms(3) [folded m] bind_first_cache evict(5)]
  show ?thesis by (simp add: m)
qed

lemma ids_inv_clear:
  assumes "objid_inv hmp" and "ids_inv c hmp S" and "hammer_clear_objid hmp dip = Inr hmp'"
  shows "ids_inv c hmp' S \<and> master_id hmp' = master_id hmp"
proof (cases "inode_objid_cache hmp dip")
  case None
  with assms show ?thesis by (simp add: hammer_clear_objid_def)
next
  case (Some a)
  from objid_inv_bound [OF assms(1) Some] obtain ent where
    e: "ocp_heap hmp a = Some ent" and q: "a \<in> set (objid_cache_list hmp)" by blast
  from assms(3) have h': "hmp' = hmp\<lparr>inode_objid_cache := (inode_objid_cache hmp)(dip := None),
              ocp_heap := (ocp_heap hmp)(a \<mapsto> ent\<lparr>oc_dip := None\<rparr>),
              objid_cache_list := a # remove1 a (objid_cache_list hmp)\<rparr>"
    by (simp add: hammer_clear_objid_eq [OF Some e q])
  have st: "stride c hmp' = stride c hmp" by (simp add: stride_def h')
  from ids_wf_dip [OF assms(2) [unfolded ids_inv_def] e]
  show ?thesis unfolding ids_inv_def st by (simp add: h')
qed

lemma ids_inv_mount0: "ids_inv c (mount0 mid tid) {}"
  by (simp add: ids_inv_def ids_wf_def mount0_def)

lemma objid_run_fresh_ids:
  assumes "objid_inv hmp" and "ids_inv c hmp S" and "objid_params_ok c (master_id hmp)"
    and "objid_run c hmp ops = Inr (ids, hmp')"
  shows "distinct (map unat ids) \<and> unat ` set ids \<inter> S = {} \<and>
         ids_inv c hmp' (S \<union> unat ` set ids) \<and> master_id hmp' = master_id hmp"
  using assms
proof (induction ops arbitrary: hmp S ids)
  case Nil
  then show ?case by simp
next
  case (Cons op ops)
  show ?case
  proof (cases op)
    case (Alloc dip)
    with Cons.prems(4) obtain tid hmp1 ts where
      a: "hammer_alloc_objid c hmp dip = Inr (tid, hmp1)"
      and r: "objid_run c hmp1 ops = Inr (ts, hmp')" and i: "ids = tid # ts"
      by (auto split: sum.splits prod.splits)
    from ids_inv_alloc [OF Cons.prems(1,2,3) a]
    have i1: "ids_inv c hmp1 (insert (unat tid) S)" and n: "unat tid \<notin> S"
      and m: "master_id hmp1 = master_id hmp" by simp_all
    from Cons.IH [OF objid_inv_alloc [OF Cons.prems(1) a] i1 Cons.prems(3) [folded m] r]
    have "distinct (map unat ts)" and "unat ` set ts \<inter> insert (unat tid) S = {}"
      and "ids_inv c hmp' (insert (unat tid) S \<union> unat ` set ts)"
      and "master_id hmp' = master_id hmp1" by simp_all
    with n m show ?thesis by (auto simp: i)
  next
    case (Clear dip)
    from objid_inv_clear [OF Cons.prems(1), of dip] obtain hmp1 where
      cl: "hammer_clear_objid hmp dip = Inr hmp1" and inv1: "objid_inv hmp1" by blast
    from ids_inv_clear [OF Cons.prems(1,2) cl]
    have i1: "ids_inv c hmp1 S" and m: "master_id hmp1 = master_id hmp" by simp_all
    from Clear Cons.prems(4) cl have r: "objid_run c hmp1 ops = Inr (ids, hmp')" by simp
    from Cons.IH [OF inv1 i1 Cons.prems(3) [folded m] r] m show ?thesis by simp
  qed
qed

text \<open>
  The ids a series of calls has returned are those of a series in which every call
  returns: the calls before the first fault.
\<close>

lemma objid_returned_run:
  "\<exists>ops1 hmp1. objid_run c hmp ops1 = Inr (objid_returned c hmp ops, hmp1)"
proof (induction c hmp ops rule: objid_returned.induct)
  case (1 c hmp)
  have "objid_run c hmp [] = Inr ([], hmp)" by simp
  then show ?case by (simp only: objid_returned.simps) blast
next
  case (2 c hmp dip ops)
  show ?case
  proof (cases "hammer_alloc_objid c hmp dip")
    case (Inl e)
    have "objid_run c hmp [] = Inr ([], hmp)" by simp
    with Inl show ?thesis by (simp only: objid_returned.simps sum.case) blast
  next
    case (Inr p)
    obtain tid hmp1 where p: "p = (tid, hmp1)" by (cases p)
    from 2 [OF Inr [unfolded p] refl] obtain ops1 hmp2 where
      r: "objid_run c hmp1 ops1 = Inr (objid_returned c hmp1 ops, hmp2)" by blast
    have "objid_run c hmp (Alloc dip # ops1) =
            Inr (objid_returned c hmp (Alloc dip # ops), hmp2)"
      by (simp add: Inr p r)
    then show ?thesis by blast
  qed
next
  case (3 c hmp dip ops)
  show ?case
  proof (cases "hammer_clear_objid hmp dip")
    case (Inl e)
    have "objid_run c hmp [] = Inr ([], hmp)" by simp
    with Inl show ?thesis by (simp only: objid_returned.simps sum.case) blast
  next
    case (Inr hmp1)
    from 3 [OF Inr] obtain ops1 hmp2 where
      r: "objid_run c hmp1 ops1 = Inr (objid_returned c hmp1 ops, hmp2)" by blast
    have "objid_run c hmp (Clear dip # ops1) =
            Inr (objid_returned c hmp (Clear dip # ops), hmp2)"
      by (simp add: Inr r)
    then show ?thesis by blast
  qed
qed

text \<open>
  C2: in every series of \<^verbatim>\<open>hammer_alloc_objid\<close> and \<^verbatim>\<open>hammer_clear_objid\<close> calls on one
  mount, starting with an empty pool, no object id is returned twice, wherever entries
  are released or are taken over in between: the ids returned are distinct, be it that
  the series stops at a call that does not return or that every call returns, and in
  the latter case whatever a further call returns is none of them.  In particular a
  directory that finds the pool full is given the next id of the entry at the head of
  the queue, the id after the last one its former owner drew, the former owner loses
  its pointer, and that id has not been handed out before.  With a pool of one entry of
  four ids, directory 0 draws 101 and 102, and directory 1 takes the entry over and
  draws 103.  The constants are as \<open>objid_params_ok\<close> requires; the mount may start
  with any \<open>next_tid\<close>, in single-master or in multi-master mode.
\<close>

theorem C2_object_ids_unique:
  assumes "objid_params_ok c mid"
    and "objid_run c (mount0 mid tid0) ops = Inr (ids, hmp)"
  shows "distinct ids \<and>
         (\<forall>ops'. distinct (objid_returned c (mount0 mid tid0) ops')) \<and>
         (\<forall>dip tid hmp1. hammer_alloc_objid c hmp dip = Inr (tid, hmp1) \<longrightarrow> tid \<notin> set ids) \<and>
         (\<forall>dip a rest ent.
            inode_objid_cache hmp dip = None \<and> \<not> objid_cache_count hmp < OBJID_CACHE_SIZE c \<and>
            objid_cache_list hmp = a # rest \<and> ocp_heap hmp a = Some ent \<and> oc_count ent \<noteq> 1 \<longrightarrow>
            (\<exists>hmp1. hammer_alloc_objid c hmp dip = Inr (oc_next_tid ent, hmp1) \<and>
               inode_objid_cache hmp1 dip = Some a \<and>
               (\<forall>d. oc_dip ent = Some d \<and> d \<noteq> dip \<longrightarrow> inode_objid_cache hmp1 d = None)) \<and>
            oc_next_tid ent \<notin> set ids) \<and>
         (case objid_run (consts0 1 4) (mount0 (- 1) 100) [Alloc 0, Alloc 0, Alloc 1] of
            Inl e \<Rightarrow> False
          | Inr (ids', hmp') \<Rightarrow>
              ids' = [101, 102, 103] \<and> inode_objid_cache hmp' 0 = None \<and>
              inode_objid_cache hmp' 1 = Some 0)"
  (is "?P1 \<and> ?P0 \<and> ?P2 \<and> ?P3 \<and> ?P4")
proof -
  have m0: "master_id (mount0 mid tid0) = mid" by (simp add: mount0_def)
  have P0: ?P0
  proof
    fix ops'
    from objid_returned_run [of c "mount0 mid tid0" ops'] obtain ops1 hmp1 where
      r: "objid_run c (mount0 mid tid0) ops1 =
            Inr (objid_returned c (mount0 mid tid0) ops', hmp1)" by blast
    from objid_run_fresh_ids [OF objid_inv_mount0 ids_inv_mount0 _ r] assms(1) m0
    have "distinct (map unat (objid_returned c (mount0 mid tid0) ops'))" by simp
    then show "distinct (objid_returned c (mount0 mid tid0) ops')"
      by (simp add: distinct_map)
  qed
  have inv: "objid_inv hmp"
    by (rule objid_inv_run [OF objid_inv_mount0 assms(2)])
  from objid_run_fresh_ids [OF objid_inv_mount0 ids_inv_mount0 _ assms(2)] assms(1) m0
  have d: "distinct (map unat ids)" and ii: "ids_inv c hmp (unat ` set ids)"
    and m: "master_id hmp = mid" by simp_all
  have P1: ?P1 using d by (simp add: distinct_map)
  have fresh: "tid \<notin> set ids" if "hammer_alloc_objid c hmp dip = Inr (tid, hmp1)"
    for dip tid hmp1
  proof -
    from ids_inv_alloc [OF inv ii _ that] assms(1) m
    have "unat tid \<notin> unat ` set ids" by simp
    then show ?thesis by blast
  qed
  then have P2: ?P2 by blast
  have P3: ?P3
  proof (intro allI impI)
    fix dip a rest ent
    assume a: "inode_objid_cache hmp dip = None \<and>
            \<not> objid_cache_count hmp < OBJID_CACHE_SIZE c \<and>
            objid_cache_list hmp = a # rest \<and> ocp_heap hmp a = Some ent \<and> oc_count ent \<noteq> 1"
    then have n: "inode_objid_cache hmp dip = None"
      and ge: "\<not> objid_cache_count hmp < OBJID_CACHE_SIZE c"
      and l: "objid_cache_list hmp = a # rest" and e: "ocp_heap hmp a = Some ent"
      and c1: "oc_count ent \<noteq> 1" by simp_all
    define hB where "hB = bind_first hmp dip a ent"
    have eB: "ocp_heap hB a = Some (ent\<lparr>oc_dip := Some dip\<rparr>)"
      and qB: "a \<in> set (objid_cache_list hB)"
      using l by (simp_all add: hB_def bind_first_def)
    have "hammer_alloc_objid c hmp dip = objid_cache_take c hB dip a"
      unfolding hB_def by (rule hammer_alloc_objid_evict [OF n ge l e])
    also note objid_cache_take_eq [OF eB qB]
    finally obtain hmp1 where al: "hammer_alloc_objid c hmp dip = Inr (oc_next_tid ent, hmp1)"
      and h1: "hmp1 =
            hB\<lparr>objid_cache_list := remove1 a (objid_cache_list hB) @ [a],
                ocp_heap := (ocp_heap hB)(a \<mapsto>
                   ent\<lparr>oc_dip := Some dip, oc_next_tid := oc_next_tid ent +
                          (if master_id hB < 0 then 1 else word_of_int (HAMMER_MAX_MASTERS c)),
                       oc_count := oc_count ent - 1\<rparr>)\<rparr>"
      using c1 by simp
    have "inode_objid_cache hmp1 dip = Some a \<and>
               (\<forall>d. oc_dip ent = Some d \<and> d \<noteq> dip \<longrightarrow> inode_objid_cache hmp1 d = None)"
      by (auto simp: h1 hB_def bind_first_def)
    with al fresh [OF al]
    show "(\<exists>hmp1. hammer_alloc_objid c hmp dip = Inr (oc_next_tid ent, hmp1) \<and>
               inode_objid_cache hmp1 dip = Some a \<and>
               (\<forall>d. oc_dip ent = Some d \<and> d \<noteq> dip \<longrightarrow> inode_objid_cache hmp1 d = None)) \<and>
            oc_next_tid ent \<notin> set ids"
      by blast
  qed
  have P4: ?P4 by (simp add: objid_eval)
  from P1 P0 P2 P3 P4 show ?thesis by (intro conjI)
qed

theorem C2_object_ids_unique_witness:
  "distinct [4114, 4130, 4194, 4146, 4210 :: 64 word] \<and>
   (case objid_run (consts0 2 4) (mount0 2 4100)
           [Alloc 0, Alloc 0, Clear 0, Alloc 1, Alloc 2, Alloc 3] of
      Inl e \<Rightarrow> False
    | Inr (ids, hmp) \<Rightarrow> ids = [4114, 4130, 4194, 4146, 4210] \<and> distinct ids) \<and>
   objid_returned (consts0 2 4) (mount0 2 4100)
     [Alloc 0, Alloc 0, Alloc 0, Clear 0, Alloc 1, Alloc 2, Alloc 3] =
     [4114, 4130, 4146, 4194] \<and>
   distinct (objid_returned (consts0 2 4) (mount0 2 4100)
     [Alloc 0, Alloc 0, Alloc 0, Clear 0, Alloc 1, Alloc 2, Alloc 3])"
proof -
  have ok: "objid_params_ok (consts0 2 4) 2"
    unfolding objid_params_ok_def by (auto simp: consts0_def intro: exI [of _ 4])
  have "\<exists>hmp. objid_run (consts0 2 4) (mount0 2 4100)
           [Alloc 0, Alloc 0, Clear 0, Alloc 1, Alloc 2, Alloc 3] =
          Inr ([4114, 4130, 4194, 4146, 4210], hmp)"
    by (simp add: objid_eval)
  then obtain hmp where run: "objid_run (consts0 2 4) (mount0 2 4100)
           [Alloc 0, Alloc 0, Clear 0, Alloc 1, Alloc 2, Alloc 3] =
          Inr ([4114, 4130, 4194, 4146, 4210], hmp)" ..
  have ret: "objid_returned (consts0 2 4) (mount0 2 4100)
     [Alloc 0, Alloc 0, Alloc 0, Clear 0, Alloc 1, Alloc 2, Alloc 3] =
     [4114, 4130, 4146, 4194]"
    by (simp add: objid_eval)
  from C2_object_ids_unique [OF ok run]
  have "distinct [4114, 4130, 4194, 4146, 4210 :: 64 word]"
    and "distinct (objid_returned (consts0 2 4) (mount0 2 4100)
     [Alloc 0, Alloc 0, Alloc 0, Clear 0, Alloc 1, Alloc 2, Alloc 3])"
    by blast+
  then show ?thesis unfolding run using ret by simp
qed

end
